theory Spec2Isabelle
  imports Main "HOL-Library.Word"
begin

unbundle bit_operations_syntax

section \<open>Data model of \<open>bit_array_c\<close>\<close>

text \<open>
  The class keeps the number of bits in an \<open>unsigned int\<close> and the bits themselves in a
  \<open>std::vector\<close> of \<open>unsigned char\<close>.  Bit 0 is the most significant bit of character 0.
  \<open>unsigned int\<close> is taken as 32 bits wide and \<open>unsigned char\<close> as 8 bits wide
  (\<open>CHAR_BIT = 8\<close>).  Indexing a \<open>std::vector\<close> outside its size is undefined
  behaviour in C++; every operation that indexes the vector therefore returns an
  \<open>option\<close>, and \<open>None\<close> stands for an access outside the vector.
\<close>

type_synonym uchar = "8 word"
type_synonym uint = "32 word"

record bit_array_c =
  m_NumBits :: uint
  m_Array :: "uchar list"

subsection \<open>Macros\<close>

definition CHAR_BIT :: nat where
  "CHAR_BIT = 8"

definition UCHAR_MAX :: uchar where
  "UCHAR_MAX = 255"

text \<open>\<open>BIT_CHAR(bit) = (bit) / CHAR_BIT\<close>, on an \<open>unsigned int\<close>.\<close>

definition BIT_CHAR :: "uint \<Rightarrow> nat" where
  "BIT_CHAR b = unat b div CHAR_BIT"

text \<open>\<open>BIT_IN_CHAR(bit) = 1 << (CHAR_BIT - 1 - (bit % CHAR_BIT))\<close>, stored in a character.\<close>

definition BIT_IN_CHAR :: "uint \<Rightarrow> uchar" where
  "BIT_IN_CHAR b = push_bit (CHAR_BIT - 1 - unat b mod CHAR_BIT) 1"

text \<open>Division of C and C++ on \<open>int\<close>: the quotient is truncated towards zero.\<close>

definition c_div :: "int \<Rightarrow> int \<Rightarrow> int" where
  "c_div a b = (if (a < 0) = (b < 0) then \<bar>a\<bar> div \<bar>b\<bar> else - (\<bar>a\<bar> div \<bar>b\<bar>))"

text \<open>\<open>BITS_TO_CHARS(bits) = (((bits) - 1) / CHAR_BIT) + 1\<close>, on an \<open>int\<close>.\<close>

definition BITS_TO_CHARS :: "int \<Rightarrow> int" where
  "BITS_TO_CHARS bits = c_div (bits - 1) (int CHAR_BIT) + 1"

text \<open>\<open>MS_BIT = 1 << (CHAR_BIT - 1)\<close>.\<close>

definition MS_BIT :: uchar where
  "MS_BIT = push_bit (CHAR_BIT - 1) 1"

subsection \<open>Checked vector access\<close>

definition read_at :: "uchar list \<Rightarrow> nat \<Rightarrow> uchar option" where
  "read_at xs i = (if i < length xs then Some (xs ! i) else None)"

definition write_at :: "uchar list \<Rightarrow> nat \<Rightarrow> uchar \<Rightarrow> uchar list option" where
  "write_at xs i x = (if i < length xs then Some (xs[i := x]) else None)"

subsection \<open>Constructors\<close>

text \<open>
  \<open>bit_array_c(int numBits)\<close>: the loop pushes one zero character for every
  \<open>i\<close> with \<open>0 \<le> i < BITS_TO_CHARS(numBits)\<close> (none when that bound is not positive),
  then the \<open>int\<close> is converted to \<open>unsigned int\<close>.  The definition is meant for
  \<open>numBits \<ge> 0\<close>, where \<open>BITS_TO_CHARS(numBits)\<close> is positive; for a negative bound
  the call of \<open>reserve\<close> before the loop would fail, and nothing below uses that case.
\<close>

definition bit_array_new :: "int \<Rightarrow> bit_array_c" where
  "bit_array_new numBits =
     \<lparr>m_NumBits = word_of_int numBits,
      m_Array = replicate (nat (BITS_TO_CHARS numBits)) 0\<rparr>"

text \<open>\<open>bit_array_c(const std::vector<unsigned char> vect, int numBits)\<close>.\<close>

definition bit_array_from_vect :: "uchar list \<Rightarrow> int \<Rightarrow> bit_array_c" where
  "bit_array_from_vect vect numBits =
     \<lparr>m_NumBits = word_of_int numBits, m_Array = vect\<rparr>"

subsection \<open>Set and clear\<close>


definition ClearAll :: "bit_array_c \<Rightarrow> bit_array_c" where
  "ClearAll a = a\<lparr>m_Array := replicate (length (m_Array a)) 0\<rparr>"

definition SetBit :: "bit_array_c \<Rightarrow> uint \<Rightarrow> bit_array_c option" where
  "SetBit a b =
     (if m_NumBits a \<le> b then Some a
      else (case read_at (m_Array a) (BIT_CHAR b) of
              None \<Rightarrow> None
            | Some x \<Rightarrow> Some (a\<lparr>m_Array := (m_Array a)[BIT_CHAR b := x OR BIT_IN_CHAR b]\<rparr>)))"


subsection \<open>Bit test and comparisons\<close>

text \<open>\<open>operator[]\<close>: no range check in the source, so the read may fall outside.\<close>

definition op_index :: "bit_array_c \<Rightarrow> uint \<Rightarrow> bool option" where
  "op_index a b =
     (case read_at (m_Array a) (BIT_CHAR b) of
        None \<Rightarrow> None
      | Some x \<Rightarrow> Some (x AND BIT_IN_CHAR b \<noteq> 0))"

text \<open>
  The relational operators of \<open>std::vector\<close>: \<open><\<close> is
  \<open>std::lexicographical_compare\<close>, and \<open>a > b\<close>, \<open>a <= b\<close>, \<open>a >= b\<close> are
  \<open>b < a\<close>, \<open>!(b < a)\<close>, \<open>!(a < b)\<close>.
\<close>

fun vector_less :: "uchar list \<Rightarrow> uchar list \<Rightarrow> bool" where
  "vector_less [] [] = False"
| "vector_less [] (y # ys) = True"
| "vector_less (x # xs) [] = False"
| "vector_less (x # xs) (y # ys) =
     (if x < y then True else if y < x then False else vector_less xs ys)"

definition op_eq :: "bit_array_c \<Rightarrow> bit_array_c \<Rightarrow> bool" where
  "op_eq a other =
     (if m_NumBits a \<noteq> m_NumBits other then False else m_Array a = m_Array other)"

definition op_ne :: "bit_array_c \<Rightarrow> bit_array_c \<Rightarrow> bool" where
  "op_ne a other =
     (if m_NumBits a \<noteq> m_NumBits other then True else m_Array a \<noteq> m_Array other)"

definition op_lt :: "bit_array_c \<Rightarrow> bit_array_c \<Rightarrow> bool" where
  "op_lt a other =
     (if m_NumBits a \<noteq> m_NumBits other then False
      else vector_less (m_Array a) (m_Array other))"

definition op_le :: "bit_array_c \<Rightarrow> bit_array_c \<Rightarrow> bool" where
  "op_le a other =
     (if m_NumBits a \<noteq> m_NumBits other then False
      else \<not> vector_less (m_Array other) (m_Array a))"

definition op_gt :: "bit_array_c \<Rightarrow> bit_array_c \<Rightarrow> bool" where
  "op_gt a other =
     (if m_NumBits a \<noteq> m_NumBits other then False
      else vector_less (m_Array other) (m_Array a))"

definition op_ge :: "bit_array_c \<Rightarrow> bit_array_c \<Rightarrow> bool" where
  "op_ge a other =
     (if m_NumBits a \<noteq> m_NumBits other then False
      else \<not> vector_less (m_Array a) (m_Array other))"

subsection \<open>Bitwise operators that assign\<close>

text \<open>
  \<open>for (i = 0; i < m_Array.size(); i++) m_Array[i] = m_Array[i] op src.m_Array[i]\<close>,
  the loop shared by \<open>&=\<close>, \<open>^=\<close> and \<open>|=\<close>.  The source vector is read without a
  check of its size.
\<close>

function bitwise_loop ::
  "(uchar \<Rightarrow> uchar \<Rightarrow> uchar) \<Rightarrow> uchar list \<Rightarrow> uchar list \<Rightarrow> nat \<Rightarrow> uchar list option" where
  "bitwise_loop f arr src i =
     (if i < length arr
      then (case read_at src i of
              None \<Rightarrow> None
            | Some y \<Rightarrow> bitwise_loop f (arr[i := f (arr ! i) y]) src (Suc i))
      else Some arr)"
  by pat_completeness auto
termination
  by (relation "measure (\<lambda>(f, arr, src, i). length arr - i)") auto

declare bitwise_loop.simps [simp del]

definition op_and_assign :: "bit_array_c \<Rightarrow> bit_array_c \<Rightarrow> bit_array_c option" where
  "op_and_assign a src =
     (if m_NumBits a \<noteq> m_NumBits src then Some a
      else map_option (\<lambda>arr. a\<lparr>m_Array := arr\<rparr>)
             (bitwise_loop (\<lambda>x y. x AND y) (m_Array a) (m_Array src) 0))"

definition op_xor_assign :: "bit_array_c \<Rightarrow> bit_array_c \<Rightarrow> bit_array_c option" where
  "op_xor_assign a src =
     (if m_NumBits a \<noteq> m_NumBits src then Some a
      else map_option (\<lambda>arr. a\<lparr>m_Array := arr\<rparr>)
             (bitwise_loop (\<lambda>x y. x XOR y) (m_Array a) (m_Array src) 0))"

definition op_or_assign :: "bit_array_c \<Rightarrow> bit_array_c \<Rightarrow> bit_array_c option" where
  "op_or_assign a src =
     (if m_NumBits a \<noteq> m_NumBits src then Some a
      else map_option (\<lambda>arr. a\<lparr>m_Array := arr\<rparr>)
             (bitwise_loop (\<lambda>x y. x OR y) (m_Array a) (m_Array src) 0))"

text \<open>\<open>Not\<close> (the name is taken by negation in HOL).\<close>

definition Not_assign :: "bit_array_c \<Rightarrow> bit_array_c option" where
  "Not_assign a =
     (if length (m_Array a) = 0 then Some a
      else (let arr = map (\<lambda>x. NOT x) (m_Array a);
                bits = unat (m_NumBits a) mod CHAR_BIT
            in if bits \<noteq> 0
               then (let mask = push_bit (CHAR_BIT - bits) UCHAR_MAX
                     in case read_at arr (BIT_CHAR (m_NumBits a - 1)) of
                          None \<Rightarrow> None
                        | Some x \<Rightarrow>
                            Some (a\<lparr>m_Array := arr[BIT_CHAR (m_NumBits a - 1) := x AND mask]\<rparr>))
               else Some (a\<lparr>m_Array := arr\<rparr>)))"


subsection \<open>Operators that return a value\<close>

text \<open>
  Each of them builds \<open>result(this->m_Array, this->m_NumBits)\<close> with the second
  constructor, whose parameter is an \<open>int\<close>, and applies the assigning operator to it.
\<close>

definition op_not :: "bit_array_c \<Rightarrow> bit_array_c option" where
  "op_not a = Not_assign (bit_array_from_vect (m_Array a) (sint (m_NumBits a)))"

definition op_and :: "bit_array_c \<Rightarrow> bit_array_c \<Rightarrow> bit_array_c option" where
  "op_and a other =
     op_and_assign (bit_array_from_vect (m_Array a) (sint (m_NumBits a))) other"

definition op_xor :: "bit_array_c \<Rightarrow> bit_array_c \<Rightarrow> bit_array_c option" where
  "op_xor a other =
     op_xor_assign (bit_array_from_vect (m_Array a) (sint (m_NumBits a))) other"

definition op_or :: "bit_array_c \<Rightarrow> bit_array_c \<Rightarrow> bit_array_c option" where
  "op_or a other =
     op_or_assign (bit_array_from_vect (m_Array a) (sint (m_NumBits a))) other"

subsection \<open>Increment and decrement\<close>

text \<open>
  \<open>for (i = BIT_CHAR(m_NumBits - 1); i >= 0; i--)\<close> of \<open>operator++\<close>, entered at
  character \<open>i\<close> with the current \<open>maxValue\<close> and \<open>one\<close>.
\<close>

fun inc_loop :: "uchar list \<Rightarrow> nat \<Rightarrow> uchar \<Rightarrow> uchar \<Rightarrow> uchar list option" where
  "inc_loop arr 0 maxValue one =
     (case read_at arr 0 of
        None \<Rightarrow> None
      | Some x \<Rightarrow>
          if x \<noteq> maxValue then Some (arr[0 := x + one])
          else Some (arr[0 := 0]))"
| "inc_loop arr (Suc i) maxValue one =
     (case read_at arr (Suc i) of
        None \<Rightarrow> None
      | Some x \<Rightarrow>
          if x \<noteq> maxValue then Some (arr[Suc i := x + one])
          else inc_loop (arr[Suc i := 0]) i UCHAR_MAX 1)"

definition op_inc :: "bit_array_c \<Rightarrow> bit_array_c option" where
  "op_inc a =
     (if length (m_Array a) = 0 then Some a
      else (let i = unat (m_NumBits a) mod CHAR_BIT;
                maxValue = (if i \<noteq> 0 then push_bit (CHAR_BIT - i) UCHAR_MAX else UCHAR_MAX);
                one = (if i \<noteq> 0 then push_bit (CHAR_BIT - i) 1 else 1)
            in map_option (\<lambda>arr. a\<lparr>m_Array := arr\<rparr>)
                 (inc_loop (m_Array a) (BIT_CHAR (m_NumBits a - 1)) maxValue one)))"

text \<open>The loop of \<open>operator--\<close>.\<close>

fun dec_loop :: "uchar list \<Rightarrow> nat \<Rightarrow> uchar \<Rightarrow> uchar \<Rightarrow> uchar list option" where
  "dec_loop arr 0 maxValue one =
     (case read_at arr 0 of
        None \<Rightarrow> None
      | Some x \<Rightarrow>
          if one \<le> x then Some (arr[0 := x - one])
          else Some (arr[0 := maxValue]))"
| "dec_loop arr (Suc i) maxValue one =
     (case read_at arr (Suc i) of
        None \<Rightarrow> None
      | Some x \<Rightarrow>
          if one \<le> x then Some (arr[Suc i := x - one])
          else dec_loop (arr[Suc i := maxValue]) i UCHAR_MAX 1)"

definition op_dec :: "bit_array_c \<Rightarrow> bit_array_c option" where
  "op_dec a =
     (if length (m_Array a) = 0 then Some a
      else (let i = unat (m_NumBits a) mod CHAR_BIT;
                maxValue = (if i \<noteq> 0 then push_bit (CHAR_BIT - i) UCHAR_MAX else UCHAR_MAX);
                one = (if i \<noteq> 0 then push_bit (CHAR_BIT - i) 1 else 1)
            in map_option (\<lambda>arr. a\<lparr>m_Array := arr\<rparr>)
                 (dec_loop (m_Array a) (BIT_CHAR (m_NumBits a - 1)) maxValue one)))"

subsection \<open>Shifts\<close>

text \<open>
  Indices and counters of the shift loops are natural numbers here.  The one place where
  the source's \<open>unsigned int\<close> arithmetic can wrap around is \<open>i - chars\<close> in the zero
  fill of \<open>operator<<=\<close>, and there the wrap-around is written out.  Sums such as
  \<open>i + chars\<close> stay below \<open>2 ^ 32\<close> for every vector of fewer than \<open>2 ^ 32 - 2 ^ 29\<close>
  characters.
\<close>

definition uint_sub :: "nat \<Rightarrow> nat \<Rightarrow> nat" where
  "uint_sub i c = (i + 2 ^ 32 - c) mod 2 ^ 32"

text \<open>\<open>for (i = 0; (i + chars) < m_Array.size(); i++) m_Array[i] = m_Array[i + chars]\<close>.\<close>

function shl_move :: "uchar list \<Rightarrow> nat \<Rightarrow> nat \<Rightarrow> uchar list" where
  "shl_move arr chars i =
     (if i + chars < length arr
      then shl_move (arr[i := arr ! (i + chars)]) chars (Suc i)
      else arr)"
  by pat_completeness auto
termination
  by (relation "measure (\<lambda>(arr, chars, i). length arr - i)") auto

declare shl_move.simps [simp del]

text \<open>\<open>for (i = m_Array.size(); chars > 0; chars--) m_Array[i - chars] = 0\<close>.\<close>

fun shl_zero :: "uchar list \<Rightarrow> nat \<Rightarrow> nat \<Rightarrow> uchar list option" where
  "shl_zero arr i 0 = Some arr"
| "shl_zero arr i (Suc c) =
     (case write_at arr (uint_sub i (Suc c)) 0 of
        None \<Rightarrow> None
      | Some arr' \<Rightarrow> shl_zero arr' i c)"

text \<open>
  One pass of the inner loop of \<open>operator<<=\<close>:
  \<open>for (j = 0; j < BIT_CHAR(m_NumBits - 1); j++)\<close>, shifting character \<open>j\<close> and
  taking the top bit of character \<open>j + 1\<close>.
\<close>

function shl_bit_inner :: "uchar list \<Rightarrow> nat \<Rightarrow> nat \<Rightarrow> uchar list option" where
  "shl_bit_inner arr lastc j =
     (if j < lastc
      then (if Suc j < length arr
            then shl_bit_inner
                   (arr[j := (if arr ! Suc j AND MS_BIT \<noteq> 0
                              then push_bit 1 (arr ! j) OR 1
                              else push_bit 1 (arr ! j))]) lastc (Suc j)
            else None)
      else Some arr)"
  by pat_completeness auto
termination
  by (relation "measure (\<lambda>(arr, lastc, j). lastc - j)") auto

declare shl_bit_inner.simps [simp del]

text \<open>The outer loop, \<open>shifts\<close> passes, each ending with the last character.\<close>

fun shl_bits :: "uchar list \<Rightarrow> nat \<Rightarrow> nat \<Rightarrow> uchar list option" where
  "shl_bits arr lastc 0 = Some arr"
| "shl_bits arr lastc (Suc s) =
     (case shl_bit_inner arr lastc 0 of
        None \<Rightarrow> None
      | Some arr1 \<Rightarrow>
          (case read_at arr1 lastc of
             None \<Rightarrow> None
           | Some x \<Rightarrow> shl_bits (arr1[lastc := push_bit 1 x]) lastc s))"

definition op_shl_assign :: "bit_array_c \<Rightarrow> uint \<Rightarrow> bit_array_c option" where
  "op_shl_assign a shifts0 =
     (let chars = unat shifts0 div CHAR_BIT;
          shifts = unat shifts0 mod CHAR_BIT
      in if unat (m_NumBits a) \<le> shifts then Some (ClearAll a)
         else (case (if chars > 0
                     then shl_zero (shl_move (m_Array a) chars 0)
                            (length (m_Array a) mod 2 ^ 32) chars
                     else Some (m_Array a)) of
                 None \<Rightarrow> None
               | Some arr \<Rightarrow>
                   map_option (\<lambda>arr'. a\<lparr>m_Array := arr'\<rparr>)
                     (shl_bits arr (BIT_CHAR (m_NumBits a - 1)) shifts)))"

text \<open>
  \<open>for (i = BIT_CHAR(m_NumBits - 1); (i - chars) >= 0; i--) m_Array[i] = m_Array[i - chars]\<close>
  with \<open>int i\<close>.
\<close>

fun shr_move :: "uchar list \<Rightarrow> nat \<Rightarrow> nat \<Rightarrow> uchar list option" where
  "shr_move arr chars 0 =
     (if chars = 0
      then (if 0 < length arr then Some (arr[0 := arr ! 0]) else None)
      else Some arr)"
| "shr_move arr chars (Suc i) =
     (if chars \<le> Suc i
      then (if Suc i < length arr
            then shr_move (arr[Suc i := arr ! (Suc i - chars)]) chars i
            else None)
      else Some arr)"

text \<open>\<open>for (; chars > 0; chars--) m_Array[chars - 1] = 0\<close>.\<close>

fun shr_zero :: "uchar list \<Rightarrow> nat \<Rightarrow> uchar list option" where
  "shr_zero arr 0 = Some arr"
| "shr_zero arr (Suc c) =
     (case write_at arr c 0 of
        None \<Rightarrow> None
      | Some arr' \<Rightarrow> shr_zero arr' c)"

text \<open>
  One pass of the inner loop of \<open>operator>>=\<close>:
  \<open>for (j = BIT_CHAR(m_NumBits - 1); j > 0; j--)\<close>.
\<close>

fun shr_bit_inner :: "uchar list \<Rightarrow> nat \<Rightarrow> uchar list option" where
  "shr_bit_inner arr 0 = Some arr"
| "shr_bit_inner arr (Suc j) =
     (if Suc j < length arr
      then shr_bit_inner
             (arr[Suc j := (if arr ! j AND 1 \<noteq> 0
                            then drop_bit 1 (arr ! Suc j) OR MS_BIT
                            else drop_bit 1 (arr ! Suc j))]) j
      else None)"

fun shr_bits :: "uchar list \<Rightarrow> nat \<Rightarrow> nat \<Rightarrow> uchar list option" where
  "shr_bits arr lastc 0 = Some arr"
| "shr_bits arr lastc (Suc s) =
     (case shr_bit_inner arr lastc of
        None \<Rightarrow> None
      | Some arr1 \<Rightarrow>
          (case read_at arr1 0 of
             None \<Rightarrow> None
           | Some x \<Rightarrow> shr_bits (arr1[0 := drop_bit 1 x]) lastc s))"

definition op_shr_assign :: "bit_array_c \<Rightarrow> uint \<Rightarrow> bit_array_c option" where
  "op_shr_assign a shifts0 =
     (let chars = unat shifts0 div CHAR_BIT;
          shifts = unat shifts0 mod CHAR_BIT
      in if unat (m_NumBits a) \<le> shifts then Some (ClearAll a)
         else (case (if chars > 0
                     then (case shr_move (m_Array a) chars (BIT_CHAR (m_NumBits a - 1)) of
                             None \<Rightarrow> None
                           | Some arr0 \<Rightarrow> shr_zero arr0 chars)
                     else Some (m_Array a)) of
                 None \<Rightarrow> None
               | Some arr \<Rightarrow>
                   (case shr_bits arr (BIT_CHAR (m_NumBits a - 1)) shifts of
                      None \<Rightarrow> None
                    | Some arr1 \<Rightarrow>
                        (let i = unat (m_NumBits a) mod CHAR_BIT
                         in if i \<noteq> 0
                            then (let mask = push_bit (CHAR_BIT - i) UCHAR_MAX
                                  in case read_at arr1 (BIT_CHAR (m_NumBits a - 1)) of
                                       None \<Rightarrow> None
                                     | Some x \<Rightarrow>
                                         Some (a\<lparr>m_Array :=
                                                   arr1[BIT_CHAR (m_NumBits a - 1) := x AND mask]\<rparr>))
                            else Some (a\<lparr>m_Array := arr1\<rparr>)))))"

section \<open>Properties the specification talks about\<close>

text \<open>Invariant A: the vector holds \<open>ceil(length / unit_width)\<close> characters.\<close>

definition invariant_A :: "bit_array_c \<Rightarrow> bool" where
  "invariant_A a \<longleftrightarrow> length (m_Array a) = (unat (m_NumBits a) + 7) div 8"

text \<open>
  The bit stored at position \<open>p\<close> of a vector of characters: position 0 is the most
  significant bit of character 0.
\<close>

definition stored_bit :: "uchar list \<Rightarrow> nat \<Rightarrow> bool" where
  "stored_bit arr p \<longleftrightarrow> bit (arr ! (p div 8)) (7 - p mod 8)"

text \<open>
  Spare bits: the positions of the final character that are at or beyond the number of
  bits.  The predicate says that each of them holds 0.
\<close>

definition spare_bits_zero :: "bit_array_c \<Rightarrow> bool" where
  "spare_bits_zero a \<longleftrightarrow>
     (\<forall>p \<in> {8 * (length (m_Array a) - 1) ..< 8 * length (m_Array a)}.
        unat (m_NumBits a) \<le> p \<longrightarrow> \<not> stored_bit (m_Array a) p)"

text \<open>
  The unsigned integer that the bits \<open>0, \<dots>, m_NumBits - 1\<close> spell, bit 0 being the
  most significant.
\<close>

definition bits_value :: "bit_array_c \<Rightarrow> nat" where
  "bits_value a =
     (\<Sum>p < unat (m_NumBits a).
        if stored_bit (m_Array a) p then 2 ^ (unat (m_NumBits a) - 1 - p) else 0)"

text \<open>
  The characters read as one number in base 256, character 0 being the most significant
  digit.
\<close>

definition be_val :: "uchar list \<Rightarrow> nat" where
  "be_val xs = foldl (\<lambda>v x. 256 * v + unat x) 0 xs"

section \<open>Construction\<close>

lemma BITS_TO_CHARS_pos: "1 \<le> n \<Longrightarrow> BITS_TO_CHARS n = (n + 7) div 8"
  by (simp add: BITS_TO_CHARS_def c_div_def CHAR_BIT_def)


lemma unat_word_of_int_uint:
  "0 \<le> n \<Longrightarrow> n < 2 ^ 31 \<Longrightarrow> unat (word_of_int n :: uint) = nat n"
  by (simp add: unat_eq_nat_uint uint_word_of_int)




section \<open>Comparison\<close>

text \<open>
  C6.  When the two numbers of bits differ, \<open>operator==\<close> returns false whatever the
  contents are, and so does each of \<open>operator<\<close>, \<open>operator<=\<close>, \<open>operator>\<close> and
  \<open>operator>=\<close>.
\<close>

theorem differing_lengths_compare_false:
  assumes "m_NumBits a \<noteq> m_NumBits b"
  shows "\<not> op_eq a b \<and> \<not> op_lt a b \<and> \<not> op_le a b \<and> \<not> op_gt a b \<and> \<not> op_ge a b"
  using assms by (simp add: op_eq_def op_lt_def op_le_def op_gt_def op_ge_def)

theorem differing_lengths_compare_false_witness:
  "\<not> op_eq \<lparr>m_NumBits = 8, m_Array = [240]\<rparr> \<lparr>m_NumBits = 16, m_Array = [240, 0]\<rparr>
   \<and> \<not> op_lt \<lparr>m_NumBits = 8, m_Array = [240]\<rparr> \<lparr>m_NumBits = 16, m_Array = [240, 0]\<rparr>
   \<and> \<not> op_le \<lparr>m_NumBits = 8, m_Array = [240]\<rparr> \<lparr>m_NumBits = 16, m_Array = [240, 0]\<rparr>
   \<and> \<not> op_gt \<lparr>m_NumBits = 8, m_Array = [240]\<rparr> \<lparr>m_NumBits = 16, m_Array = [240, 0]\<rparr>
   \<and> \<not> op_ge \<lparr>m_NumBits = 8, m_Array = [240]\<rparr> \<lparr>m_NumBits = 16, m_Array = [240, 0]\<rparr>"
  using differing_lengths_compare_false
    [of "\<lparr>m_NumBits = 8, m_Array = [240]\<rparr>" "\<lparr>m_NumBits = 16, m_Array = [240, 0]\<rparr>"]
  by simp

section \<open>Bitwise operators on vectors of different lengths\<close>

text \<open>
  C8.  When the two numbers of bits differ, each of \<open>a &= b\<close>, \<open>a ^= b\<close> and
  \<open>a |= b\<close> returns at once and leaves \<open>a\<close> as it was, number of bits and characters.
  The argument is passed by value, so \<open>b\<close> cannot change: the model returns the new
  \<open>a\<close> only.
\<close>

theorem differing_lengths_bitwise_noop:
  assumes "m_NumBits a \<noteq> m_NumBits b"
  shows "op_and_assign a b = Some a \<and> op_xor_assign a b = Some a \<and> op_or_assign a b = Some a"
  using assms by (simp add: op_and_assign_def op_xor_assign_def op_or_assign_def)

theorem differing_lengths_bitwise_noop_witness:
  "op_and_assign \<lparr>m_NumBits = 8, m_Array = [240]\<rparr> \<lparr>m_NumBits = 16, m_Array = [15, 255]\<rparr>
     = Some \<lparr>m_NumBits = 8, m_Array = [240]\<rparr>
   \<and> op_xor_assign \<lparr>m_NumBits = 8, m_Array = [240]\<rparr> \<lparr>m_NumBits = 16, m_Array = [15, 255]\<rparr>
     = Some \<lparr>m_NumBits = 8, m_Array = [240]\<rparr>
   \<and> op_or_assign \<lparr>m_NumBits = 8, m_Array = [240]\<rparr> \<lparr>m_NumBits = 16, m_Array = [15, 255]\<rparr>
     = Some \<lparr>m_NumBits = 8, m_Array = [240]\<rparr>"
  using differing_lengths_bitwise_noop
    [of "\<lparr>m_NumBits = 8, m_Array = [240]\<rparr>" "\<lparr>m_NumBits = 16, m_Array = [15, 255]\<rparr>"]
  by simp

section \<open>Single bits\<close>

lemma bit_BIT_IN_CHAR: "bit (BIT_IN_CHAR b) k \<longleftrightarrow> k = 7 - unat b mod 8"
proof -
  have "7 - unat b mod 8 < 8" by simp
  then show ?thesis
    by (auto simp add: BIT_IN_CHAR_def CHAR_BIT_def bit_simps simp del: One_nat_def)
qed

lemma and_BIT_IN_CHAR: "(x AND BIT_IN_CHAR b \<noteq> 0) \<longleftrightarrow> bit x (7 - unat b mod 8)"
proof
  assume nz: "x AND BIT_IN_CHAR b \<noteq> 0"
  show "bit x (7 - unat b mod 8)"
  proof (rule ccontr)
    assume "\<not> bit x (7 - unat b mod 8)"
    then have "x AND BIT_IN_CHAR b = 0"
      by (intro bit_eqI) (auto simp add: bit_and_iff bit_BIT_IN_CHAR)
    with nz show False by simp
  qed
next
  assume "bit x (7 - unat b mod 8)"
  then have "bit (x AND BIT_IN_CHAR b) (7 - unat b mod 8)"
    by (simp add: bit_and_iff bit_BIT_IN_CHAR)
  then show "x AND BIT_IN_CHAR b \<noteq> 0"
    by auto
qed

lemma op_index_stored_bit:
  "op_index a b =
     (if unat b div 8 < length (m_Array a) then Some (stored_bit (m_Array a) (unat b)) else None)"
  by (simp add: op_index_def read_at_def BIT_CHAR_def CHAR_BIT_def stored_bit_def and_BIT_IN_CHAR)

lemma stored_bit_update:
  "c < length arr \<Longrightarrow>
   stored_bit (arr[c := x]) p = (if p div 8 = c then bit x (7 - p mod 8) else stored_bit arr p)"
  by (simp add: stored_bit_def)

lemma pos_eq_iff:
  assumes "(p::nat) div 8 = q div 8"
  shows "(7 - p mod 8 = 7 - q mod 8) = (p = q)"
proof -
  have "p mod 8 < 8" and "q mod 8 < 8" by simp_all
  then have "(7 - p mod 8 = 7 - q mod 8) = (p mod 8 = q mod 8)" by linarith
  also have "\<dots> = (p = q)" using assms by (metis div_mult_mod_eq)
  finally show ?thesis .
qed

text \<open>
  C5.  For every \<open>n > 0\<close> (an \<open>int\<close>) and every index \<open>i\<close> below \<open>n\<close>: after
  \<open>SetBit(i)\<close> on the vector that the first constructor builds for \<open>n\<close> bits,
  \<open>operator[]\<close> returns true at \<open>i\<close> and false at every other index below \<open>n\<close>,
  and none of these accesses leaves the vector.
\<close>

theorem set_bit_then_get:
  assumes "0 < n" and "n < 2 ^ 31" and "uint i < n"
  shows "\<exists>a. SetBit (bit_array_new n) i = Some a
             \<and> op_index a i = Some True
             \<and> (\<forall>j. uint j < n \<and> j \<noteq> i \<longrightarrow> op_index a j = Some False)"
proof -
  let ?k = "nat ((n + 7) div 8)"
  let ?z = "replicate ?k (0::uchar)"
  let ?c = "unat i div 8"
  have new: "bit_array_new n = \<lparr>m_NumBits = word_of_int n, m_Array = ?z\<rparr>"
    using assms by (simp add: bit_array_new_def BITS_TO_CHARS_pos)
  have un: "unat (word_of_int n :: uint) = nat n"
    using assms by (simp add: unat_word_of_int_uint)
  have inb: "\<And>j::uint. uint j < n \<Longrightarrow> unat j div 8 < ?k"
  proof -
    fix j :: uint assume "uint j < n"
    then have "int (unat j) < n" by simp
    then have "int (unat j div 8) < (n + 7) div 8"
      by (simp add: zdiv_int)
    then show "unat j div 8 < ?k" by linarith
  qed
  have "uint (word_of_int n :: uint) = n"
    using assms by (simp add: uint_word_of_int)
  then have lt: "\<not> word_of_int n \<le> i"
    using assms(3) by (simp only: word_le_def)
  let ?a = "\<lparr>m_NumBits = word_of_int n, m_Array = ?z[?c := 0 OR BIT_IN_CHAR i]\<rparr>"
  have set: "SetBit (bit_array_new n) i = Some ?a"
    using inb [OF assms(3)] lt
    by (simp add: new SetBit_def read_at_def BIT_CHAR_def CHAR_BIT_def)
  have geti: "op_index ?a i = Some True"
    using inb [OF assms(3)]
    by (simp add: op_index_stored_bit stored_bit_update bit_BIT_IN_CHAR)
  have getj: "op_index ?a j = Some False" if "uint j < n" and "j \<noteq> i" for j
  proof -
    have "unat j \<noteq> unat i" using that(2) by (simp add: word_unat_eq_iff)
    show ?thesis
    proof (cases "unat j div 8 = ?c")
      case True
      with \<open>unat j \<noteq> unat i\<close> have "7 - unat j mod 8 \<noteq> 7 - unat i mod 8"
        by (simp add: pos_eq_iff)
      then have nb: "\<not> bit (0 OR BIT_IN_CHAR i) (7 - unat j mod 8)"
        by (simp only: bit_BIT_IN_CHAR or.left_neutral not_False_eq_True)
      have "stored_bit (?z[?c := 0 OR BIT_IN_CHAR i]) (unat j)
              = bit (0 OR BIT_IN_CHAR i) (7 - unat j mod 8)"
        using inb [OF assms(3)] True by (simp only: stored_bit_update length_replicate if_True simp_thms)
      with nb have "\<not> stored_bit (?z[?c := 0 OR BIT_IN_CHAR i]) (unat j)"
        by blast
      then show ?thesis
        using inb [OF that(1)] by (simp add: op_index_stored_bit)
    next
      case False
      then show ?thesis
        using inb [OF that(1)] inb [OF assms(3)]
        by (simp add: op_index_stored_bit stored_bit_update) (simp add: stored_bit_def)
    qed
  qed
  show ?thesis
  proof (intro exI [of _ ?a] conjI allI impI)
    show "SetBit (bit_array_new n) i = Some ?a" by (rule set)
    show "op_index ?a i = Some True" by (rule geti)
    show "op_index ?a j = Some False" if "uint j < n \<and> j \<noteq> i" for j
      using that getj by blast
  qed
qed

theorem set_bit_then_get_witness:
  "SetBit (bit_array_new 20) 11 = Some \<lparr>m_NumBits = 20, m_Array = [0, 16, 0]\<rparr>
   \<and> op_index \<lparr>m_NumBits = 20, m_Array = [0, 16, 0]\<rparr> 11 = Some True
   \<and> op_index \<lparr>m_NumBits = 20, m_Array = [0, 16, 0]\<rparr> 3 = Some False"
proof -
  have h: "(0::int) < 20" "(20::int) < 2 ^ 31" "uint (11::uint) < 20"
    by simp_all
  have new: "bit_array_new 20 = \<lparr>m_NumBits = 20, m_Array = [0, 0, 0]\<rparr>"
    by (simp add: bit_array_new_def BITS_TO_CHARS_def c_div_def CHAR_BIT_def numeral_3_eq_3)
  have set: "SetBit (bit_array_new 20) 11 = Some \<lparr>m_NumBits = 20, m_Array = [0, 16, 0]\<rparr>"
    by (simp add: new SetBit_def read_at_def BIT_CHAR_def BIT_IN_CHAR_def CHAR_BIT_def)
  from set_bit_then_get [OF h] obtain a where
    a: "SetBit (bit_array_new 20) 11 = Some a" "op_index a 11 = Some True"
      "\<forall>j. uint j < 20 \<and> j \<noteq> 11 \<longrightarrow> op_index a j = Some False"
    by blast
  from a(1) set have eq: "a = \<lparr>m_NumBits = 20, m_Array = [0, 16, 0]\<rparr>"
    by simp
  have "uint (3::uint) < 20 \<and> (3::uint) \<noteq> 11"
    by simp
  with a(3) have "op_index a 3 = Some False"
    by blast
  with a(2) set show ?thesis
    unfolding eq by simp
qed

section \<open>Increment and decrement stay inside the vector\<close>

lemma last_char_index:
  assumes "m_NumBits a \<noteq> 0" and "invariant_A a"
  shows "BIT_CHAR (m_NumBits a - 1) = length (m_Array a) - 1" and "0 < length (m_Array a)"
proof -
  have pos: "0 < unat (m_NumBits a)"
    using assms(1) by (simp add: unat_gt_0)
  have u: "unat (m_NumBits a - 1) = unat (m_NumBits a) - 1"
    using assms(1) by (simp add: unat_minus_one)
  have len: "length (m_Array a) = (unat (m_NumBits a) + 7) div 8"
    using assms(2) by (simp add: invariant_A_def)
  from pos have "(unat (m_NumBits a) - 1) div 8 = (unat (m_NumBits a) + 7) div 8 - 1"
    by linarith
  then show "BIT_CHAR (m_NumBits a - 1) = length (m_Array a) - 1"
    by (simp add: BIT_CHAR_def CHAR_BIT_def u len)
  from pos show "0 < length (m_Array a)"
    unfolding len by linarith
qed

lemma inc_loop_in_bounds:
  "i < length arr \<Longrightarrow> \<exists>arr'. inc_loop arr i mv one = Some arr' \<and> length arr' = length arr"
proof (induction i arbitrary: arr mv one)
  case 0
  then show ?case by (simp add: read_at_def)
next
  case (Suc i)
  have "i < length (arr[Suc i := 0])"
    using Suc.prems by simp
  from Suc.IH [OF this] obtain arr' where
    "inc_loop (arr[Suc i := 0]) i UCHAR_MAX 1 = Some arr'" and "length arr' = length arr"
    by auto
  with Suc.prems show ?case by (simp add: read_at_def)
qed

lemma dec_loop_in_bounds:
  "i < length arr \<Longrightarrow> \<exists>arr'. dec_loop arr i mv one = Some arr' \<and> length arr' = length arr"
proof (induction i arbitrary: arr mv one)
  case 0
  then show ?case by (simp add: read_at_def)
next
  case (Suc i)
  have "i < length (arr[Suc i := mv])"
    using Suc.prems by simp
  from Suc.IH [OF this] obtain arr' where
    "dec_loop (arr[Suc i := mv]) i UCHAR_MAX 1 = Some arr'" and "length arr' = length arr"
    by auto
  with Suc.prems show ?case by (simp add: read_at_def)
qed

text \<open>
  C10.  For every vector of at least one bit whose storage holds \<open>ceil(length / 8)\<close>
  characters, \<open>operator++\<close> and \<open>operator--\<close> return a vector: no character that they
  read or write lies outside the storage (the branch \<open>None\<close> of the model is not
  reached).
\<close>

theorem inc_dec_in_bounds:
  assumes "m_NumBits a \<noteq> 0" and "invariant_A a"
  shows "(\<exists>a'. op_inc a = Some a') \<and> (\<exists>a'. op_dec a = Some a')"
proof -
  have i: "BIT_CHAR (m_NumBits a - 1) < length (m_Array a)"
    using last_char_index [OF assms] by simp
  obtain arr1 where "inc_loop (m_Array a) (BIT_CHAR (m_NumBits a - 1))
      (if unat (m_NumBits a) mod CHAR_BIT \<noteq> 0
       then push_bit (CHAR_BIT - unat (m_NumBits a) mod CHAR_BIT) UCHAR_MAX else UCHAR_MAX)
      (if unat (m_NumBits a) mod CHAR_BIT \<noteq> 0
       then push_bit (CHAR_BIT - unat (m_NumBits a) mod CHAR_BIT) 1 else 1) = Some arr1"
    using inc_loop_in_bounds [OF i] by blast
  then have 1: "\<exists>a'. op_inc a = Some a'"
    by (simp add: op_inc_def Let_def)
  obtain arr2 where "dec_loop (m_Array a) (BIT_CHAR (m_NumBits a - 1))
      (if unat (m_NumBits a) mod CHAR_BIT \<noteq> 0
       then push_bit (CHAR_BIT - unat (m_NumBits a) mod CHAR_BIT) UCHAR_MAX else UCHAR_MAX)
      (if unat (m_NumBits a) mod CHAR_BIT \<noteq> 0
       then push_bit (CHAR_BIT - unat (m_NumBits a) mod CHAR_BIT) 1 else 1) = Some arr2"
    using dec_loop_in_bounds [OF i] by blast
  then have 2: "\<exists>a'. op_dec a = Some a'"
    by (simp add: op_dec_def Let_def)
  from 1 2 show ?thesis ..
qed

theorem inc_dec_in_bounds_witness:
  "(\<exists>a'. op_inc \<lparr>m_NumBits = 20, m_Array = [255, 255, 240]\<rparr> = Some a')
   \<and> (\<exists>a'. op_dec \<lparr>m_NumBits = 20, m_Array = [255, 255, 240]\<rparr> = Some a')"
  using inc_dec_in_bounds [of "\<lparr>m_NumBits = 20, m_Array = [255, 255, 240]\<rparr>"]
  by (simp add: invariant_A_def)

section \<open>Shifts by at least the number of bits\<close>

text \<open>
  C1 does not hold of the code.  Both shift operators first reduce \<open>shifts\<close> modulo
  \<open>CHAR_BIT\<close> and only then compare it with the number of bits, so the branch that
  clears the vector is not taken for a shift of 16 on a vector of 8 bits.  The zero fill
  that follows writes \<open>chars = 2\<close> characters into a vector of one character: index
  \<open>1 - 2\<close> (as \<open>unsigned int\<close>) in \<open>operator<<=\<close>, index 1 in \<open>operator>>=\<close>.
  Both writes are outside the vector.  (Shifts by at least the number of bits that stay
  inside the storage do clear the vector: see \<open>shift_beyond_length_clears\<close> at the end.)
\<close>

theorem shift_by_more_out_of_bounds:
  "op_shl_assign \<lparr>m_NumBits = 8, m_Array = [255]\<rparr> 16 = None
   \<and> op_shr_assign \<lparr>m_NumBits = 8, m_Array = [255]\<rparr> 16 = None"
proof -
  have "shl_zero [255] (Suc 0) (Suc (Suc 0)) = None"
    by (simp add: write_at_def uint_sub_def)
  then have l: "shl_zero [255] (Suc 0) 2 = None"
    by (simp only: numeral_2_eq_2)
  have "shr_zero [255] (Suc (Suc 0)) = None"
    by (simp add: write_at_def)
  then have r: "shr_zero [255] 2 = None"
    by (simp only: numeral_2_eq_2)
  have m: "shl_move [255] 2 0 = [255]"
    by (simp add: shl_move.simps)
  have "op_shl_assign \<lparr>m_NumBits = 8, m_Array = [255]\<rparr> 16 = None"
    by (simp add: op_shl_assign_def CHAR_BIT_def m l)
  moreover have "op_shr_assign \<lparr>m_NumBits = 8, m_Array = [255]\<rparr> 16 = None"
    by (simp add: op_shr_assign_def CHAR_BIT_def BIT_CHAR_def r)
  ultimately show ?thesis ..
qed

section \<open>Spare bits\<close>

text \<open>
  The positions of the final character, counted from its least significant bit: the
  spare bits are zero exactly when the lowest \<open>8 * size - m_NumBits\<close> bits of the final
  character are.
\<close>

lemma final_unit_position:
  assumes "8 * (L - 1) \<le> (p::nat)" and "p < 8 * L"
  shows "p div 8 = L - 1" and "7 - p mod 8 = 8 * L - 1 - p"
proof -
  show d: "p div 8 = L - 1"
    using assms by linarith
  have "p = 8 * (p div 8) + p mod 8"
    by simp
  then have "p = 8 * (L - 1) + p mod 8"
    by (simp only: d)
  moreover have "p mod 8 < 8"
    by simp
  ultimately show "7 - p mod 8 = 8 * L - 1 - p"
    using assms by linarith
qed

lemma spare_bits_zero_alt:
  "spare_bits_zero a \<longleftrightarrow>
     (\<forall>k. k < 8 * length (m_Array a) - unat (m_NumBits a) \<longrightarrow>
        \<not> bit (m_Array a ! (length (m_Array a) - 1)) k)"
  (is "?lhs \<longleftrightarrow> ?rhs")
proof
  assume l: ?lhs
  show ?rhs
  proof (intro allI impI)
    fix k assume k: "k < 8 * length (m_Array a) - unat (m_NumBits a)"
    show "\<not> bit (m_Array a ! (length (m_Array a) - 1)) k"
    proof (cases "k < 8")
      case False
      then show ?thesis
        using bit_imp_le_length [of "m_Array a ! (length (m_Array a) - 1)" k] by auto
    next
      case True
      let ?p = "8 * length (m_Array a) - 1 - k"
      have r: "8 * (length (m_Array a) - 1) \<le> ?p" "?p < 8 * length (m_Array a)"
        "unat (m_NumBits a) \<le> ?p"
        using True k by linarith+
      then have "\<not> stored_bit (m_Array a) ?p"
        using l by (simp add: spare_bits_zero_def)
      moreover have "7 - ?p mod 8 = k"
        using final_unit_position(2) [OF r(1,2)] True k by linarith
      ultimately show ?thesis
        using final_unit_position(1) [OF r(1,2)] by (simp add: stored_bit_def)
    qed
  qed
next
  assume r: ?rhs
  show ?lhs
    unfolding spare_bits_zero_def
  proof (intro ballI impI)
    fix p
    assume p: "p \<in> {8 * (length (m_Array a) - 1) ..< 8 * length (m_Array a)}"
      and n: "unat (m_NumBits a) \<le> p"
    from p have b: "8 * (length (m_Array a) - 1) \<le> p" "p < 8 * length (m_Array a)"
      by simp_all
    have "8 * length (m_Array a) - 1 - p < 8 * length (m_Array a) - unat (m_NumBits a)"
      using b n by linarith
    with r have "\<not> bit (m_Array a ! (length (m_Array a) - 1)) (8 * length (m_Array a) - 1 - p)"
      by blast
    then show "\<not> stored_bit (m_Array a) p"
      unfolding stored_bit_def final_unit_position [OF b] .
  qed
qed

section \<open>Construction from a vector of characters\<close>

text \<open>
  C9.  The second constructor stores the given characters as they are and masks nothing.
  So whenever the final character of the buffer has a bit set at a position \<open>p\<close> at or
  beyond the number of bits \<open>n\<close>, the constructed vector has a nonzero spare bit.  It
  can be told from a vector \<open>w\<close> of the same number of bits, with the same bit at every
  index below \<open>n\<close> and zero spare bits: \<open>operator==\<close> returns false on the two.
\<close>

theorem from_vect_keeps_spare_bits:
  assumes n: "0 \<le> n" "n < 2 ^ 31"
    and p: "8 * (length buf - 1) \<le> p" "p < 8 * length buf" "nat n \<le> p"
    and set: "stored_bit buf p"
  shows "m_Array (bit_array_from_vect buf n) = buf
         \<and> unat (m_NumBits (bit_array_from_vect buf n)) = nat n
         \<and> \<not> spare_bits_zero (bit_array_from_vect buf n)
         \<and> (\<exists>w. m_NumBits w = m_NumBits (bit_array_from_vect buf n)
                \<and> spare_bits_zero w
                \<and> (\<forall>i. uint i < n \<longrightarrow>
                       op_index w i = op_index (bit_array_from_vect buf n) i
                       \<and> op_index w i \<noteq> None)
                \<and> \<not> op_eq (bit_array_from_vect buf n) w)"
proof -
  let ?v = "bit_array_from_vect buf n"
  let ?L = "length buf"
  let ?x = "buf ! (?L - 1)"
  let ?y = "?x AND NOT (mask (8 * ?L - nat n))"
  let ?w = "\<lparr>m_NumBits = word_of_int n, m_Array = buf[?L - 1 := ?y]\<rparr>"
  have un: "unat (word_of_int n :: uint) = nat n"
    using n by (simp add: unat_word_of_int_uint)
  have L: "0 < ?L"
    using p by linarith
  have arr: "m_Array ?v = buf" and nb: "unat (m_NumBits ?v) = nat n"
    by (simp_all add: bit_array_from_vect_def un)
  have k: "8 * ?L - 1 - p < 8 * ?L - nat n"
    using p by linarith
  have xb: "bit ?x (8 * ?L - 1 - p)"
    using set unfolding stored_bit_def final_unit_position [OF p(1,2)] .
  have nsp: "\<not> spare_bits_zero ?v"
    unfolding spare_bits_zero_alt arr nb using k xb by blast
  have wsp: "spare_bits_zero ?w"
    unfolding spare_bits_zero_alt using L
    by (simp add: un bit_and_iff bit_not_iff bit_mask_iff)
  have "\<not> bit ?y (8 * ?L - 1 - p)"
    using k by (simp add: bit_and_iff bit_not_iff bit_mask_iff)
  with xb have "?y \<noteq> ?x"
    by metis
  then have "buf[?L - 1 := ?y] \<noteq> buf"
    using L by (metis diff_less list_update_id nth_list_update_eq zero_less_one)
  then have ne: "\<not> op_eq ?v ?w"
    by (auto simp add: op_eq_def bit_array_from_vect_def)
  have same: "op_index ?w i = op_index ?v i \<and> op_index ?w i \<noteq> None" if "uint i < n" for i
  proof -
    have "int (unat i) = uint i"
      by simp
    then have i: "unat i < nat n"
      using that by linarith
    then have ib: "unat i div 8 < ?L"
      using p by linarith
    show ?thesis
    proof (cases "unat i div 8 = ?L - 1")
      case False
      then show ?thesis
        using ib by (simp add: op_index_stored_bit arr stored_bit_def)
    next
      case True
      have b: "8 * (?L - 1) \<le> unat i" "unat i < 8 * ?L"
        using True ib by linarith+
      have "\<not> 8 * ?L - 1 - unat i < 8 * ?L - nat n"
        using i b by linarith
      moreover have "8 * ?L - 1 - unat i < 8"
        using b by linarith
      ultimately have "bit ?y (8 * ?L - 1 - unat i) = bit ?x (8 * ?L - 1 - unat i)"
        by (simp add: bit_and_iff bit_not_iff bit_mask_iff)
      then have "stored_bit (buf[?L - 1 := ?y]) (unat i) = stored_bit buf (unat i)"
        unfolding stored_bit_def final_unit_position [OF b] using L by simp
      then show ?thesis
        using ib by (simp add: op_index_stored_bit arr)
    qed
  qed
  have "m_NumBits ?w = m_NumBits ?v"
    by (simp add: bit_array_from_vect_def)
  with wsp same ne have "\<exists>w. m_NumBits w = m_NumBits ?v \<and> spare_bits_zero w
      \<and> (\<forall>i. uint i < n \<longrightarrow> op_index w i = op_index ?v i \<and> op_index w i \<noteq> None)
      \<and> \<not> op_eq ?v w"
    by (intro exI [of _ ?w]) blast
  with arr nb nsp show ?thesis
    by blast
qed

theorem from_vect_keeps_spare_bits_witness:
  "m_Array (bit_array_from_vect [255] 4) = [255]
   \<and> unat (m_NumBits (bit_array_from_vect [255] 4)) = 4
   \<and> \<not> spare_bits_zero (bit_array_from_vect [255] 4)
   \<and> (\<exists>w. m_NumBits w = m_NumBits (bit_array_from_vect [255] 4)
          \<and> spare_bits_zero w
          \<and> (\<forall>i. uint i < 4 \<longrightarrow>
                 op_index w i = op_index (bit_array_from_vect [255] 4) i
                 \<and> op_index w i \<noteq> None)
          \<and> \<not> op_eq (bit_array_from_vect [255] 4) w)"
proof -
  have h: "(0::int) \<le> 4" "(4::int) < 2 ^ 31"
    "8 * (length [255::uchar] - 1) \<le> (7::nat)" "(7::nat) < 8 * length [255::uchar]"
    "nat 4 \<le> (7::nat)" "stored_bit [255] 7"
    by (simp_all add: stored_bit_def)
  from from_vect_keeps_spare_bits [OF h] show ?thesis
    by simp
qed

section \<open>Operations that keep the spare bits zero\<close>

text \<open>
  Arithmetic of \<open>ceil(n / 8)\<close> and of the number of spare bits, then one lemma for each
  operation: on a vector that satisfies Invariant A the operation stays inside the
  storage, and the result satisfies Invariant A and has zero spare bits.
\<close>

lemma ceil8_split: "((n::nat) + 7) div 8 = n div 8 + (n mod 8 + 7) div 8"
proof -
  have "(n + 7) div 8 = n div 8 + 7 div 8 + (n mod 8 + 7 mod 8) div 8"
    by (rule div_add1_eq)
  then show ?thesis by simp
qed
lemma ceil8_mod_nonzero: 
  assumes "(n::nat) mod 8 \<noteq> 0" shows "(n + 7) div 8 = n div 8 + 1"
proof -
  define r where "r = n mod 8"
  have "0 < r" "r < 8" using assms by (simp_all add: r_def)
  then have "(r + 7) div 8 = 1" by linarith
  then show ?thesis unfolding r_def ceil8_split [of n] by simp
qed
lemma ceil8_mod_zero: 
  assumes "(n::nat) mod 8 = 0" shows "(n + 7) div 8 = n div 8"
  unfolding ceil8_split [of n] using assms by simp
lemma ceil8_spare_nonzero: 
  assumes "(n::nat) mod 8 \<noteq> 0" shows "8 * ((n + 7) div 8) - n = 8 - n mod 8"
proof -
  define q r where "q = n div 8" and "r = n mod 8"
  have "n = 8 * q + r" by (simp add: q_def r_def)
  then have "8 * (q + 1) - n = 8 - r" by simp
  then show ?thesis unfolding q_def r_def ceil8_mod_nonzero [OF assms] .
qed
lemma ceil8_spare_zero: 
  assumes "(n::nat) mod 8 = 0" shows "8 * ((n + 7) div 8) - n = 0"
proof -
  have "n = 8 * (n div 8)" using assms by auto
  then show ?thesis unfolding ceil8_mod_zero [OF assms] by simp
qed

lemma spare_count_mod:
  assumes "invariant_A a" and "unat (m_NumBits a) mod 8 \<noteq> 0"
  shows "8 * length (m_Array a) - unat (m_NumBits a) = 8 - unat (m_NumBits a) mod 8"
  using assms(1) ceil8_spare_nonzero [OF assms(2)] by (simp only: invariant_A_def)

lemma spare_count_zero:
  assumes "invariant_A a" and "unat (m_NumBits a) mod 8 = 0"
  shows "8 * length (m_Array a) - unat (m_NumBits a) = 0"
  using assms(1) ceil8_spare_zero [OF assms(2)] by (simp only: invariant_A_def)

lemma mod_nonzero_NumBits: "unat (n::uint) mod 8 \<noteq> 0 \<Longrightarrow> n \<noteq> 0"
  by auto

lemma bit_high_mask:
  "m \<le> 8 \<Longrightarrow> bit (push_bit m UCHAR_MAX) k \<longleftrightarrow> m \<le> k \<and> k < 8"
proof -
  have "UCHAR_MAX = - 1"
    by (simp add: UCHAR_MAX_def)
  show ?thesis
    unfolding \<open>UCHAR_MAX = - 1\<close> by (auto simp add: bit_simps)
qed









lemma from_vect_self: "bit_array_from_vect (m_Array a) (sint (m_NumBits a)) = (a::bit_array_c)"
  by (simp add: bit_array_from_vect_def)

lemma Not_assign_result:
  assumes "invariant_A a"
  shows "Not_assign a =
           Some (a\<lparr>m_Array :=
                    (if unat (m_NumBits a) mod 8 = 0 then map (\<lambda>x. NOT x) (m_Array a)
                     else (map (\<lambda>x. NOT x) (m_Array a))
                            [length (m_Array a) - 1 :=
                               NOT (m_Array a ! (length (m_Array a) - 1))
                               AND push_bit (8 - unat (m_NumBits a) mod 8) UCHAR_MAX])\<rparr>)"
proof (cases "unat (m_NumBits a) mod 8 = 0")
  case True
  then show ?thesis
    by (cases "m_Array a = []") (simp_all add: Not_assign_def CHAR_BIT_def)
next
  case False
  note li = last_char_index [OF mod_nonzero_NumBits [OF False] assms]
  from False li show ?thesis
    by (simp add: Not_assign_def CHAR_BIT_def read_at_def)
qed


lemma mask_absorb:
  fixes x m :: uchar
  assumes "\<And>k. bit x k \<Longrightarrow> bit m k"
  shows "NOT (NOT x AND m) AND m = x"
  by (rule bit_eqI) (use assms in \<open>auto simp add: bit_and_iff bit_not_iff bit_or_iff\<close>)

lemma Not_assign_twice:
  assumes "invariant_A a" and "spare_bits_zero a"
  shows "\<exists>a'. Not_assign a = Some a' \<and> Not_assign a' = Some a"
proof (cases "unat (m_NumBits a) mod 8 = 0")
  case True
  let ?a' = "a\<lparr>m_Array := map (\<lambda>x. NOT x) (m_Array a)\<rparr>"
  have 1: "Not_assign a = Some ?a'"
    using True by (simp add: Not_assign_result [OF assms(1)])
  have "invariant_A ?a'"
    using assms(1) by (simp add: invariant_A_def)
  from Not_assign_result [OF this] have "Not_assign ?a' = Some a"
    using True by (simp add: comp_def)
  with 1 show ?thesis by blast
next
  case False
  let ?i = "length (m_Array a) - 1"
  let ?m = "push_bit (8 - unat (m_NumBits a) mod 8) UCHAR_MAX :: uchar"
  let ?arr' = "(map (\<lambda>x. NOT x) (m_Array a))[?i := NOT (m_Array a ! ?i) AND ?m]"
  let ?a' = "a\<lparr>m_Array := ?arr'\<rparr>"
  note li = last_char_index [OF mod_nonzero_NumBits [OF False] assms(1)]
  have 1: "Not_assign a = Some ?a'"
    using False by (simp add: Not_assign_result [OF assms(1)])
  have "invariant_A ?a'"
    using assms(1) by (simp add: invariant_A_def)
  from Not_assign_result [OF this] have 2: "Not_assign ?a' =
      Some (a\<lparr>m_Array := (map (\<lambda>x. NOT x) ?arr')[?i := NOT (?arr' ! ?i) AND ?m]\<rparr>)"
    using False by simp
  have low: "\<not> bit (m_Array a ! ?i) k" if "k < 8 - unat (m_NumBits a) mod 8" for k
    using assms(2) that unfolding spare_bits_zero_alt spare_count_mod [OF assms(1) False]
    by blast
  have last: "NOT (NOT (m_Array a ! ?i) AND ?m) AND ?m = m_Array a ! ?i"
  proof (rule mask_absorb)
    fix k
    assume b: "bit (m_Array a ! ?i) k"
    then have "\<not> k < 8 - unat (m_NumBits a) mod 8"
      using low [of k] by blast
    moreover have "k < 8"
      using bit_imp_le_length [OF b] by simp
    ultimately show "bit ?m k"
      by (simp add: bit_high_mask)
  qed
  have "(map (\<lambda>x. NOT x) ?arr')[?i := NOT (?arr' ! ?i) AND ?m] = m_Array a"
  proof (rule nth_equalityI)
    show "length ((map (\<lambda>x. NOT x) ?arr')[?i := NOT (?arr' ! ?i) AND ?m]) = length (m_Array a)"
      by simp
  next
    fix j
    assume "j < length ((map (\<lambda>x. NOT x) ?arr')[?i := NOT (?arr' ! ?i) AND ?m])"
    then have j: "j < length (m_Array a)"
      by simp
    show "(map (\<lambda>x. NOT x) ?arr')[?i := NOT (?arr' ! ?i) AND ?m] ! j = m_Array a ! j"
    proof (cases "j = ?i")
      case True
      with j last show ?thesis by simp
    next
      case False
      with j show ?thesis by simp
    qed
  qed
  with 2 have "Not_assign ?a' = Some a"
    by simp
  with 1 show ?thesis by blast
qed

lemma example_well_formed:
  "invariant_A \<lparr>m_NumBits = 20, m_Array = [x, y, 240]\<rparr>"
  "spare_bits_zero \<lparr>m_NumBits = 20, m_Array = [x, y, 240]\<rparr>"
proof -
  show "invariant_A \<lparr>m_NumBits = 20, m_Array = [x, y, 240]\<rparr>"
    by (simp add: invariant_A_def)
  show "spare_bits_zero \<lparr>m_NumBits = 20, m_Array = [x, y, 240]\<rparr>"
    unfolding spare_bits_zero_alt
  proof (intro allI impI)
    fix k
    assume "k < 8 * length (m_Array \<lparr>m_NumBits = 20, m_Array = [x, y, 240::uchar]\<rparr>)
                - unat (m_NumBits \<lparr>m_NumBits = 20, m_Array = [x, y, 240::uchar]\<rparr>)"
    then have "k < 4" by simp
    then have "k = 0 \<or> k = 1 \<or> k = 2 \<or> k = 3" by linarith
    then have "\<not> bit (240::uchar) k"
      by (elim disjE) simp_all
    then show "\<not> bit (m_Array \<lparr>m_NumBits = 20, m_Array = [x, y, 240::uchar]\<rparr>
                   ! (length (m_Array \<lparr>m_NumBits = 20, m_Array = [x, y, 240::uchar]\<rparr>) - 1)) k"
      by simp
  qed
qed

subsection \<open>The assigning bitwise operators\<close>






subsection \<open>Increment and decrement as arithmetic in base 256\<close>

lemma be_val_Nil [simp]: "be_val [] = 0"
  by (simp add: be_val_def)

lemma be_val_snoc [simp]: "be_val (xs @ [x]) = 256 * be_val xs + unat x"
  by (simp add: be_val_def)

lemma be_val_less: "be_val xs < 256 ^ length xs"
proof (induction xs rule: rev_induct)
  case Nil
  show ?case by simp
next
  case (snoc x xs)
  have "unat x < 256"
    using unsigned_less [of x] by simp
  with snoc have "256 * be_val xs + unat x < 256 * 256 ^ length xs"
    by linarith
  then show ?case by simp
qed

lemma small_shift_cases: "sc < 8 \<Longrightarrow> sc = 0 \<or> sc = 1 \<or> sc = 2 \<or> sc = 3 \<or> sc = 4 \<or> sc = 5 \<or> sc = 6 \<or> sc = (7::nat)"
  by linarith

lemma unat_shifted_one: "sc < 8 \<Longrightarrow> unat (push_bit sc 1 :: uchar) = 2 ^ sc"
  by (drule small_shift_cases) (elim disjE; simp)

lemma unat_shifted_max: "sc < 8 \<Longrightarrow> unat (push_bit sc UCHAR_MAX) + 2 ^ sc = 256"
  by (drule small_shift_cases) (elim disjE; simp add: UCHAR_MAX_def)

lemma inc_char_no_carry:
  assumes sc: "sc < 8" and d: "2 ^ sc dvd unat x" and ne: "x \<noteq> push_bit sc UCHAR_MAX"
  shows "unat (x + push_bit sc 1) = unat x + 2 ^ sc" and "unat x + 2 ^ sc < 256"
proof -
  from d obtain q where q: "unat x = 2 ^ sc * q" ..
  from unat_shifted_max [OF sc] obtain m where m: "unat (push_bit sc UCHAR_MAX) = m"
    and m256: "m + 2 ^ sc = 256"
    by blast
  have "(2::nat) ^ sc * 2 ^ (8 - sc) = 2 ^ 8"
    using sc by (simp add: power_add [symmetric])
  then have pq: "(2::nat) ^ sc * 2 ^ (8 - sc) = 256"
    by simp
  have "unat x < 256"
    using unsigned_less [of x] by simp
  then have "2 ^ sc * q < 2 ^ sc * 2 ^ (8 - sc)"
    by (simp only: q pq)
  then have ql: "q < 2 ^ (8 - sc)"
    by simp
  have "unat x \<noteq> m"
    using ne m by (metis word_unat_eq_iff)
  have "q + 1 \<noteq> 2 ^ (8 - sc)"
  proof
    assume "q + 1 = 2 ^ (8 - sc)"
    then have "2 ^ sc * (q + 1) = (256::nat)"
      using pq by simp
    then have "unat x + 2 ^ sc = 256"
      by (simp add: q)
    with m256 have "unat x = m"
      by linarith
    with \<open>unat x \<noteq> m\<close> show False ..
  qed
  with ql have "q + 2 \<le> 2 ^ (8 - sc)"
    by linarith
  then have "2 ^ sc * (q + 2) \<le> 2 ^ sc * 2 ^ (8 - sc)"
    by (rule mult_le_mono2)
  then have "unat x + 2 * 2 ^ sc \<le> 256"
    by (simp add: q pq algebra_simps)
  moreover have "0 < (2::nat) ^ sc"
    by simp
  ultimately show lt: "unat x + 2 ^ sc < 256"
    by linarith
  then have "unat x + unat (push_bit sc 1 :: uchar) < 2 ^ LENGTH(8)"
    by (simp only: unat_shifted_one [OF sc]) simp
  then have "unat (x + push_bit sc 1) = unat x + unat (push_bit sc 1 :: uchar)"
    by (simp only: unat_add_lem)
  then show "unat (x + push_bit sc 1) = unat x + 2 ^ sc"
    by (simp only: unat_shifted_one [OF sc])
qed

lemma dec_char_no_borrow:
  assumes sc: "sc < 8" and le: "push_bit sc 1 \<le> (x::uchar)"
  shows "unat (x - push_bit sc 1) = unat x - 2 ^ sc" and "2 ^ sc \<le> unat x"
proof -
  show "unat (x - push_bit sc 1) = unat x - 2 ^ sc"
    using unat_sub [OF le] by (simp only: unat_shifted_one [OF sc])
  show "2 ^ sc \<le> unat x"
    using le by (simp only: word_le_nat_alt unat_shifted_one [OF sc])
qed

lemma dec_char_borrow:
  assumes sc: "sc < 8" and d: "2 ^ sc dvd unat x" and nle: "\<not> push_bit sc 1 \<le> (x::uchar)"
  shows "x = 0"
proof -
  have "unat x < 2 ^ sc"
    using nle by (simp only: word_le_nat_alt unat_shifted_one [OF sc] not_le)
  with d have "unat x = 0"
    by (meson dvd_imp_le not_less neq0_conv)
  then show ?thesis
    by (simp add: unat_eq_0)
qed

lemma be_val_take_update:
  assumes "i < length arr"
  shows "be_val (take (Suc i) (arr[i := v])) = 256 * be_val (take i arr) + unat v"
proof -
  have "take (Suc i) (arr[i := v]) = take i arr @ [v]"
    using assms by (simp add: take_Suc_conv_app_nth)
  then show ?thesis by simp
qed

lemma be_val_take_Suc:
  assumes "i < length arr"
  shows "be_val (take (Suc i) arr) = 256 * be_val (take i arr) + unat (arr ! i)"
  using assms by (simp add: take_Suc_conv_app_nth)

lemma inc_loop_no_carry:
  "i < length arr \<Longrightarrow> arr ! i \<noteq> mv \<Longrightarrow>
   inc_loop arr i mv one = Some (arr[i := arr ! i + one])"
  by (cases i) (simp_all add: read_at_def)

lemma inc_loop_carry_Suc:
  "Suc i < length arr \<Longrightarrow> arr ! Suc i = mv \<Longrightarrow>
   inc_loop arr (Suc i) mv one = inc_loop (arr[Suc i := 0]) i UCHAR_MAX 1"
  by (simp add: read_at_def)

lemma inc_loop_carry_0:
  "0 < length arr \<Longrightarrow> arr ! 0 = mv \<Longrightarrow> inc_loop arr 0 mv one = Some (arr[0 := 0])"
  by (simp add: read_at_def)

lemma inc_loop_value:
  assumes "i < length arr" and "sc < 8" and "2 ^ sc dvd unat (arr ! i)"
  shows "\<exists>arr'. inc_loop arr i (push_bit sc UCHAR_MAX) (push_bit sc 1) = Some arr'
           \<and> length arr' = length arr
           \<and> (\<forall>j. i < j \<longrightarrow> arr' ! j = arr ! j)
           \<and> 2 ^ sc dvd unat (arr' ! i)
           \<and> be_val (take (Suc i) arr') = (be_val (take (Suc i) arr) + 2 ^ sc) mod 256 ^ Suc i"
  using assms
proof (induction i arbitrary: arr sc)
  case 0
  let ?x = "arr ! 0"
  show ?case
  proof (cases "?x = push_bit sc UCHAR_MAX")
    case False
    let ?arr' = "arr[0 := ?x + push_bit sc 1]"
    note nc = inc_char_no_carry [OF "0.prems"(2,3) False]
    have "inc_loop arr 0 (push_bit sc UCHAR_MAX) (push_bit sc 1) = Some ?arr'"
      by (rule inc_loop_no_carry [OF "0.prems"(1) False])
    moreover have "2 ^ sc dvd unat (?x + push_bit sc 1)"
      unfolding nc(1) using "0.prems"(3) by simp
    then have "2 ^ sc dvd unat (?arr' ! 0)"
      using "0.prems"(1) by (simp only: nth_list_update_eq)
    moreover have "be_val (take (Suc 0) ?arr') = (be_val (take (Suc 0) arr) + 2 ^ sc) mod 256 ^ Suc 0"
      using nc by (simp add: be_val_take_update [OF "0.prems"(1)] be_val_take_Suc [OF "0.prems"(1)])
    ultimately show ?thesis
      by (intro exI [of _ ?arr']) simp
  next
    case True
    let ?arr' = "arr[0 := 0]"
    have "inc_loop arr 0 (push_bit sc UCHAR_MAX) (push_bit sc 1) = Some ?arr'"
      by (rule inc_loop_carry_0 [OF "0.prems"(1) True])
    moreover have "2 ^ sc dvd unat (?arr' ! 0)"
      using "0.prems"(1) by simp
    moreover have "be_val (take (Suc 0) ?arr') = (be_val (take (Suc 0) arr) + 2 ^ sc) mod 256 ^ Suc 0"
      using unat_shifted_max [OF "0.prems"(2)]
      by (simp add: be_val_take_update [OF "0.prems"(1)] be_val_take_Suc [OF "0.prems"(1)] True)
    ultimately show ?thesis
      by (intro exI [of _ ?arr']) simp
  qed
next
  case (Suc i)
  let ?x = "arr ! Suc i"
  let ?B = "be_val (take (Suc i) arr)"
  have Bl: "?B < 256 ^ Suc i"
    using be_val_less [of "take (Suc i) arr"] Suc.prems(1) by (simp add: min_absorb2)
  show ?case
  proof (cases "?x = push_bit sc UCHAR_MAX")
    case False
    let ?arr' = "arr[Suc i := ?x + push_bit sc 1]"
    note nc = inc_char_no_carry [OF Suc.prems(2,3) False]
    have "inc_loop arr (Suc i) (push_bit sc UCHAR_MAX) (push_bit sc 1) = Some ?arr'"
      by (rule inc_loop_no_carry [OF Suc.prems(1) False])
    moreover have "2 ^ sc dvd unat (?x + push_bit sc 1)"
      unfolding nc(1) using Suc.prems(3) by simp
    then have "2 ^ sc dvd unat (?arr' ! Suc i)"
      using Suc.prems(1) by (simp only: nth_list_update_eq)
    moreover have "be_val (take (Suc (Suc i)) ?arr')
                     = (be_val (take (Suc (Suc i)) arr) + 2 ^ sc) mod 256 ^ Suc (Suc i)"
    proof -
      have "256 * ?B + unat ?x + 2 ^ sc < 256 * 256 ^ Suc i"
        using Bl nc(2) by linarith
      then have "(256 * ?B + unat ?x + 2 ^ sc) mod 256 ^ Suc (Suc i) = 256 * ?B + unat ?x + 2 ^ sc"
        by simp
      then show ?thesis
        by (simp only: be_val_take_update [OF Suc.prems(1)] be_val_take_Suc [OF Suc.prems(1)] nc(1))
    qed
    ultimately show ?thesis
      by (intro exI [of _ ?arr']) simp
  next
    case True
    let ?arr1 = "arr[Suc i := 0]"
    have i1: "i < length ?arr1"
      using Suc.prems(1) by simp
    have "(0::nat) < 8" and "2 ^ 0 dvd unat (?arr1 ! i)"
      by simp_all
    from Suc.IH [OF i1 this] obtain arr' where
      r: "inc_loop ?arr1 i UCHAR_MAX 1 = Some arr'"
      and l: "length arr' = length arr"
      and e: "\<forall>j. i < j \<longrightarrow> arr' ! j = ?arr1 ! j"
      and v: "be_val (take (Suc i) arr') = (be_val (take (Suc i) ?arr1) + 1) mod 256 ^ Suc i"
      by auto
    have t: "take (Suc i) ?arr1 = take (Suc i) arr"
      by simp
    have z: "arr' ! Suc i = 0"
      using e Suc.prems(1) by simp
    have "inc_loop arr (Suc i) (push_bit sc UCHAR_MAX) (push_bit sc 1) = Some arr'"
      using inc_loop_carry_Suc [OF Suc.prems(1) True] r by simp
    moreover have "\<forall>j. Suc i < j \<longrightarrow> arr' ! j = arr ! j"
      using e by simp
    moreover have "2 ^ sc dvd unat (arr' ! Suc i)"
      by (simp add: z)
    moreover have "be_val (take (Suc (Suc i)) arr')
                     = (be_val (take (Suc (Suc i)) arr) + 2 ^ sc) mod 256 ^ Suc (Suc i)"
    proof -
      have li: "Suc i < length arr'"
        using l Suc.prems(1) by simp
      have "be_val (take (Suc (Suc i)) arr') = 256 * ((?B + 1) mod 256 ^ Suc i)"
        by (simp only: be_val_take_Suc [OF li] v t z) simp
      also have "\<dots> = (256 * (?B + 1)) mod (256 * 256 ^ Suc i)"
        by (rule mult_mod_right)
      also have "256 * (?B + 1) = 256 * ?B + unat ?x + 2 ^ sc"
        using unat_shifted_max [OF Suc.prems(2)] by (simp add: True)
      finally show ?thesis
        by (simp only: be_val_take_Suc [OF Suc.prems(1)] power_Suc)
    qed
    ultimately show ?thesis
      using l by (intro exI [of _ arr']) simp
  qed
qed

lemma dec_loop_no_borrow:
  "i < length arr \<Longrightarrow> one \<le> arr ! i \<Longrightarrow>
   dec_loop arr i mv one = Some (arr[i := arr ! i - one])"
  by (cases i) (simp_all add: read_at_def)

lemma dec_loop_borrow_Suc:
  "Suc i < length arr \<Longrightarrow> \<not> one \<le> arr ! Suc i \<Longrightarrow>
   dec_loop arr (Suc i) mv one = dec_loop (arr[Suc i := mv]) i UCHAR_MAX 1"
  by (simp add: read_at_def)

lemma dec_loop_borrow_0:
  "0 < length arr \<Longrightarrow> \<not> one \<le> arr ! 0 \<Longrightarrow> dec_loop arr 0 mv one = Some (arr[0 := mv])"
  by (simp add: read_at_def)

lemma dvd_shifted_max:
  assumes "sc < 8"
  shows "2 ^ sc dvd unat (push_bit sc UCHAR_MAX)"
proof -
  have "(2::nat) ^ sc dvd 2 ^ 8"
    using assms by (intro le_imp_power_dvd) simp
  then have "(2::nat) ^ sc dvd unat (push_bit sc UCHAR_MAX) + 2 ^ sc"
    by (simp add: unat_shifted_max [OF assms])
  then show ?thesis
    by (simp only: dvd_add_left_iff [OF dvd_refl])
qed

lemma dec_loop_value:
  assumes "i < length arr" and "sc < 8" and "2 ^ sc dvd unat (arr ! i)"
  shows "\<exists>arr'. dec_loop arr i (push_bit sc UCHAR_MAX) (push_bit sc 1) = Some arr'
           \<and> length arr' = length arr
           \<and> (\<forall>j. i < j \<longrightarrow> arr' ! j = arr ! j)
           \<and> 2 ^ sc dvd unat (arr' ! i)
           \<and> (be_val (take (Suc i) arr') + 2 ^ sc) mod 256 ^ Suc i = be_val (take (Suc i) arr)"
  using assms
proof (induction i arbitrary: arr sc)
  case 0
  let ?x = "arr ! 0"
  show ?case
  proof (cases "push_bit sc 1 \<le> ?x")
    case True
    let ?arr' = "arr[0 := ?x - push_bit sc 1]"
    note nb = dec_char_no_borrow [OF "0.prems"(2) True]
    have lt: "unat ?x < 256"
      using unsigned_less [of ?x] by simp
    have "dec_loop arr 0 (push_bit sc UCHAR_MAX) (push_bit sc 1) = Some ?arr'"
      by (rule dec_loop_no_borrow [OF "0.prems"(1) True])
    moreover have "2 ^ sc dvd unat (?x - push_bit sc 1)"
      unfolding nb(1) using "0.prems"(3) by simp
    then have "2 ^ sc dvd unat (?arr' ! 0)"
      using "0.prems"(1) by (simp only: nth_list_update_eq)
    moreover have "(be_val (take (Suc 0) ?arr') + 2 ^ sc) mod 256 ^ Suc 0 = be_val (take (Suc 0) arr)"
      using nb(2) lt
      by (simp only: be_val_take_update [OF "0.prems"(1)] be_val_take_Suc [OF "0.prems"(1)] nb(1))
        simp
    ultimately show ?thesis
      by (intro exI [of _ ?arr']) simp
  next
    case False
    let ?arr' = "arr[0 := push_bit sc UCHAR_MAX]"
    have x0: "?x = 0"
      by (rule dec_char_borrow [OF "0.prems"(2,3) False])
    have "dec_loop arr 0 (push_bit sc UCHAR_MAX) (push_bit sc 1) = Some ?arr'"
      by (rule dec_loop_borrow_0 [OF "0.prems"(1) False])
    moreover have "2 ^ sc dvd unat (?arr' ! 0)"
      using "0.prems"(1) dvd_shifted_max [OF "0.prems"(2)] by (simp only: nth_list_update_eq)
    moreover have "(be_val (take (Suc 0) ?arr') + 2 ^ sc) mod 256 ^ Suc 0 = be_val (take (Suc 0) arr)"
      by (simp only: be_val_take_update [OF "0.prems"(1)] be_val_take_Suc [OF "0.prems"(1)]
            add.assoc unat_shifted_max [OF "0.prems"(2)] x0) simp
    ultimately show ?thesis
      by (intro exI [of _ ?arr']) simp
  qed
next
  case (Suc i)
  let ?x = "arr ! Suc i"
  let ?B = "be_val (take (Suc i) arr)"
  have Bl: "?B < 256 ^ Suc i"
    using be_val_less [of "take (Suc i) arr"] Suc.prems(1) by (simp add: min_absorb2)
  have lt: "unat ?x < 256"
    using unsigned_less [of ?x] by simp
  show ?case
  proof (cases "push_bit sc 1 \<le> ?x")
    case True
    let ?arr' = "arr[Suc i := ?x - push_bit sc 1]"
    note nb = dec_char_no_borrow [OF Suc.prems(2) True]
    have "dec_loop arr (Suc i) (push_bit sc UCHAR_MAX) (push_bit sc 1) = Some ?arr'"
      by (rule dec_loop_no_borrow [OF Suc.prems(1) True])
    moreover have "2 ^ sc dvd unat (?x - push_bit sc 1)"
      unfolding nb(1) using Suc.prems(3) by simp
    then have "2 ^ sc dvd unat (?arr' ! Suc i)"
      using Suc.prems(1) by (simp only: nth_list_update_eq)
    moreover have "(be_val (take (Suc (Suc i)) ?arr') + 2 ^ sc) mod 256 ^ Suc (Suc i)
                     = be_val (take (Suc (Suc i)) arr)"
    proof -
      have "256 * ?B + (unat ?x - 2 ^ sc) + 2 ^ sc = 256 * ?B + unat ?x"
        using nb(2) by simp
      moreover have "256 * ?B + unat ?x < 256 ^ Suc (Suc i)"
        using Bl lt by simp
      ultimately show ?thesis
        by (simp only: be_val_take_update [OF Suc.prems(1)] be_val_take_Suc [OF Suc.prems(1)]
              nb(1) mod_less)
    qed
    ultimately show ?thesis
      by (intro exI [of _ ?arr']) simp
  next
    case False
    let ?arr1 = "arr[Suc i := push_bit sc UCHAR_MAX]"
    have x0: "?x = 0"
      by (rule dec_char_borrow [OF Suc.prems(2,3) False])
    have i1: "i < length ?arr1"
      using Suc.prems(1) by simp
    have "(0::nat) < 8" and "2 ^ 0 dvd unat (?arr1 ! i)"
      by simp_all
    from Suc.IH [OF i1 this] obtain arr' where
      r: "dec_loop ?arr1 i UCHAR_MAX 1 = Some arr'"
      and l: "length arr' = length arr"
      and e: "\<forall>j. i < j \<longrightarrow> arr' ! j = ?arr1 ! j"
      and v: "(be_val (take (Suc i) arr') + 1) mod 256 ^ Suc i = be_val (take (Suc i) ?arr1)"
      by auto
    have t: "take (Suc i) ?arr1 = take (Suc i) arr"
      by simp
    have z: "arr' ! Suc i = push_bit sc UCHAR_MAX"
      using e Suc.prems(1) by simp
    have "dec_loop arr (Suc i) (push_bit sc UCHAR_MAX) (push_bit sc 1) = Some arr'"
      using dec_loop_borrow_Suc [OF Suc.prems(1) False] r by simp
    moreover have "\<forall>j. Suc i < j \<longrightarrow> arr' ! j = arr ! j"
      using e by simp
    moreover have "2 ^ sc dvd unat (arr' ! Suc i)"
      unfolding z by (rule dvd_shifted_max [OF Suc.prems(2)])
    moreover have "(be_val (take (Suc (Suc i)) arr') + 2 ^ sc) mod 256 ^ Suc (Suc i)
                     = be_val (take (Suc (Suc i)) arr)"
    proof -
      let ?D = "be_val (take (Suc i) arr')"
      have li: "Suc i < length arr'"
        using l Suc.prems(1) by simp
      have "be_val (take (Suc (Suc i)) arr') + 2 ^ sc = 256 * (?D + 1)"
        using unat_shifted_max [OF Suc.prems(2)]
        by (simp only: be_val_take_Suc [OF li] z) simp
      then have "(be_val (take (Suc (Suc i)) arr') + 2 ^ sc) mod 256 ^ Suc (Suc i)
                   = (256 * (?D + 1)) mod (256 * 256 ^ Suc i)"
        by simp
      also have "\<dots> = 256 * ((?D + 1) mod 256 ^ Suc i)"
        by (rule mult_mod_right [symmetric])
      also have "\<dots> = 256 * ?B"
        by (simp only: v t)
      finally show ?thesis
        by (simp only: be_val_take_Suc [OF Suc.prems(1)] x0) simp
    qed
    ultimately show ?thesis
      using l by (intro exI [of _ arr']) simp
  qed
qed

lemma low_bits_dvd: "(\<forall>k<m. \<not> bit (w::uchar) k) \<longleftrightarrow> 2 ^ m dvd unat w"
proof -
  have "2 ^ m dvd unat w \<longleftrightarrow> take_bit m (unat w) = 0"
    by (simp only: take_bit_eq_0_iff)
  also have "\<dots> \<longleftrightarrow> (\<forall>k. \<not> bit (take_bit m (unat w)) k)"
    by (auto simp add: bit_eq_iff)
  also have "\<dots> \<longleftrightarrow> (\<forall>k<m. \<not> bit w k)"
    by (auto simp add: bit_take_bit_iff bit_unsigned_iff)
  finally show ?thesis ..
qed

lemma spare_bits_zero_dvd:
  "spare_bits_zero a \<longleftrightarrow>
     2 ^ (8 * length (m_Array a) - unat (m_NumBits a)) dvd unat (m_Array a ! (length (m_Array a) - 1))"
  unfolding spare_bits_zero_alt by (simp only: low_bits_dvd)

lemma spare_count_less:
  assumes "invariant_A a" and "m_NumBits a \<noteq> 0"
  shows "8 * length (m_Array a) - unat (m_NumBits a) < 8"
proof (cases "unat (m_NumBits a) mod 8 = 0")
  case True
  then show ?thesis
    by (simp only: spare_count_zero [OF assms(1) True])
next
  case False
  then show ?thesis
    unfolding spare_count_mod [OF assms(1) False] by simp
qed

lemma inc_dec_parameters:
  assumes "invariant_A a"
  shows "(if unat (m_NumBits a) mod CHAR_BIT \<noteq> 0
          then push_bit (CHAR_BIT - unat (m_NumBits a) mod CHAR_BIT) UCHAR_MAX else UCHAR_MAX)
           = push_bit (8 * length (m_Array a) - unat (m_NumBits a)) UCHAR_MAX"
    and "(if unat (m_NumBits a) mod CHAR_BIT \<noteq> 0
          then push_bit (CHAR_BIT - unat (m_NumBits a) mod CHAR_BIT) 1 else 1)
           = (push_bit (8 * length (m_Array a) - unat (m_NumBits a)) 1 :: uchar)"
proof -
  show "(if unat (m_NumBits a) mod CHAR_BIT \<noteq> 0
          then push_bit (CHAR_BIT - unat (m_NumBits a) mod CHAR_BIT) UCHAR_MAX else UCHAR_MAX)
           = push_bit (8 * length (m_Array a) - unat (m_NumBits a)) UCHAR_MAX"
  proof (cases "unat (m_NumBits a) mod 8 = 0")
    case True
    then show ?thesis
      by (simp add: CHAR_BIT_def spare_count_zero [OF assms True])
  next
    case False
    then show ?thesis
      by (simp add: CHAR_BIT_def spare_count_mod [OF assms False])
  qed
  show "(if unat (m_NumBits a) mod CHAR_BIT \<noteq> 0
          then push_bit (CHAR_BIT - unat (m_NumBits a) mod CHAR_BIT) 1 else 1)
           = (push_bit (8 * length (m_Array a) - unat (m_NumBits a)) 1 :: uchar)"
  proof (cases "unat (m_NumBits a) mod 8 = 0")
    case True
    then show ?thesis
      by (simp add: CHAR_BIT_def spare_count_zero [OF assms True])
  next
    case False
    then show ?thesis
      by (simp add: CHAR_BIT_def spare_count_mod [OF assms False])
  qed
qed

lemma op_inc_unfold:
  assumes "invariant_A a" and "m_NumBits a \<noteq> 0"
  shows "op_inc a = map_option (\<lambda>arr. a\<lparr>m_Array := arr\<rparr>)
           (inc_loop (m_Array a) (length (m_Array a) - 1)
              (push_bit (8 * length (m_Array a) - unat (m_NumBits a)) UCHAR_MAX)
              (push_bit (8 * length (m_Array a) - unat (m_NumBits a)) 1))"
  unfolding op_inc_def Let_def inc_dec_parameters [OF assms(1)]
  using last_char_index [OF assms(2,1)] by (simp del: push_bit_of_1)

lemma op_dec_unfold:
  assumes "invariant_A a" and "m_NumBits a \<noteq> 0"
  shows "op_dec a = map_option (\<lambda>arr. a\<lparr>m_Array := arr\<rparr>)
           (dec_loop (m_Array a) (length (m_Array a) - 1)
              (push_bit (8 * length (m_Array a) - unat (m_NumBits a)) UCHAR_MAX)
              (push_bit (8 * length (m_Array a) - unat (m_NumBits a)) 1))"
  unfolding op_dec_def Let_def inc_dec_parameters [OF assms(1)]
  using last_char_index [OF assms(2,1)] by (simp del: push_bit_of_1)

lemma op_inc_value:
  assumes "invariant_A a" and "spare_bits_zero a" and "m_NumBits a \<noteq> 0"
  shows "\<exists>a'. op_inc a = Some a' \<and> m_NumBits a' = m_NumBits a
           \<and> invariant_A a' \<and> spare_bits_zero a'
           \<and> be_val (m_Array a') =
               (be_val (m_Array a) + 2 ^ (8 * length (m_Array a) - unat (m_NumBits a)))
                 mod 256 ^ length (m_Array a)"
proof -
  let ?L = "length (m_Array a)"
  let ?sc = "8 * ?L - unat (m_NumBits a)"
  note li = last_char_index [OF assms(3,1)]
  have i: "?L - 1 < ?L" and S: "Suc (?L - 1) = ?L"
    using li(2) by simp_all
  have d: "2 ^ ?sc dvd unat (m_Array a ! (?L - 1))"
    using assms(2) by (simp only: spare_bits_zero_dvd)
  from inc_loop_value [OF i spare_count_less [OF assms(1,3)] d] obtain arr' where
    r: "inc_loop (m_Array a) (?L - 1) (push_bit ?sc UCHAR_MAX) (push_bit ?sc 1) = Some arr'"
    and l: "length arr' = ?L"
    and d': "2 ^ ?sc dvd unat (arr' ! (?L - 1))"
    and v: "be_val (take (Suc (?L - 1)) arr')
              = (be_val (take (Suc (?L - 1)) (m_Array a)) + 2 ^ ?sc) mod 256 ^ Suc (?L - 1)"
    by blast
  let ?a' = "a\<lparr>m_Array := arr'\<rparr>"
  have "op_inc a = Some ?a'"
    by (simp only: op_inc_unfold [OF assms(1,3)] r option.map)
  moreover have "invariant_A ?a'"
    using assms(1) l by (simp add: invariant_A_def)
  moreover have "spare_bits_zero ?a'"
    using d' l by (simp add: spare_bits_zero_dvd)
  moreover have "be_val (m_Array ?a') = (be_val (m_Array a) + 2 ^ ?sc) mod 256 ^ ?L"
    using v l unfolding S by simp
  ultimately show ?thesis
    by (intro exI [of _ ?a']) simp
qed

lemma op_dec_value:
  assumes "invariant_A a" and "spare_bits_zero a" and "m_NumBits a \<noteq> 0"
  shows "\<exists>a'. op_dec a = Some a' \<and> m_NumBits a' = m_NumBits a
           \<and> invariant_A a' \<and> spare_bits_zero a'
           \<and> (be_val (m_Array a') + 2 ^ (8 * length (m_Array a) - unat (m_NumBits a)))
                 mod 256 ^ length (m_Array a) = be_val (m_Array a)"
proof -
  let ?L = "length (m_Array a)"
  let ?sc = "8 * ?L - unat (m_NumBits a)"
  note li = last_char_index [OF assms(3,1)]
  have i: "?L - 1 < ?L" and S: "Suc (?L - 1) = ?L"
    using li(2) by simp_all
  have d: "2 ^ ?sc dvd unat (m_Array a ! (?L - 1))"
    using assms(2) by (simp only: spare_bits_zero_dvd)
  from dec_loop_value [OF i spare_count_less [OF assms(1,3)] d] obtain arr' where
    r: "dec_loop (m_Array a) (?L - 1) (push_bit ?sc UCHAR_MAX) (push_bit ?sc 1) = Some arr'"
    and l: "length arr' = ?L"
    and d': "2 ^ ?sc dvd unat (arr' ! (?L - 1))"
    and v: "(be_val (take (Suc (?L - 1)) arr') + 2 ^ ?sc) mod 256 ^ Suc (?L - 1)
              = be_val (take (Suc (?L - 1)) (m_Array a))"
    by blast
  let ?a' = "a\<lparr>m_Array := arr'\<rparr>"
  have "op_dec a = Some ?a'"
    by (simp only: op_dec_unfold [OF assms(1,3)] r option.map)
  moreover have "invariant_A ?a'"
    using assms(1) l by (simp add: invariant_A_def)
  moreover have "spare_bits_zero ?a'"
    using d' l by (simp add: spare_bits_zero_dvd)
  moreover have "(be_val (m_Array ?a') + 2 ^ ?sc) mod 256 ^ ?L = be_val (m_Array a)"
    using v l unfolding S by simp
  ultimately show ?thesis
    by (intro exI [of _ ?a']) simp
qed



subsection \<open>The shifts\<close>

lemma length_shl_move: "length (shl_move arr chars i) = length arr"
proof (induction arr chars i rule: shl_move.induct)
  case (1 arr chars i)
  show ?case
  proof (cases "i + chars < length arr")
    case True
    with 1 show ?thesis
      by (simp add: shl_move.simps [of arr chars i])
  next
    case False
    then show ?thesis
      by (simp add: shl_move.simps [of arr chars i])
  qed
qed

lemma uint_sub_le:
  assumes "c \<le> i" and "i < 2 ^ 32"
  shows "uint_sub i c = i - c"
proof -
  have "i + 2 ^ 32 - c = (i - c) + 2 ^ 32"
    using assms(1) by simp
  moreover have "i - c < 2 ^ 32"
    using assms(2) by simp
  ultimately have "(i + 2 ^ 32 - c) mod 2 ^ 32 = i - c"
    by (simp only: mod_add_self2 mod_less)
  then show ?thesis
    by (simp only: uint_sub_def)
qed




lemma shr_move_result:
  assumes "i < length arr"
  shows "\<exists>arr'. shr_move arr chars i = Some arr' \<and> length arr' = length arr"
  using assms
proof (induction i arbitrary: arr)
  case 0
  then show ?case by simp
next
  case (Suc i)
  have "i < length (arr[Suc i := arr ! (Suc i - chars)])"
    using Suc.prems by simp
  from Suc.IH [OF this] Suc.prems show ?case
    by auto
qed




lemma storage_size_less:
  assumes "invariant_A a"
  shows "length (m_Array a) < 2 ^ 32"
proof -
  have "unat (m_NumBits a) < 4294967296"
    using unsigned_less [of "m_NumBits a"] by simp
  then have "unat (m_NumBits a) + 7 \<le> 4294967302"
    by linarith
  then have "(unat (m_NumBits a) + 7) div 8 \<le> 4294967302 div 8"
    by (rule div_le_mono)
  then show ?thesis
    using assms by (simp add: invariant_A_def)
qed

lemma op_shl_assign_unfold:
  assumes "\<not> unat (m_NumBits a) \<le> unat shifts mod 8"
  shows "op_shl_assign a shifts =
           (case (if 0 < unat shifts div 8
                  then shl_zero (shl_move (m_Array a) (unat shifts div 8) 0)
                         (length (m_Array a) mod 2 ^ 32) (unat shifts div 8)
                  else Some (m_Array a)) of
              None \<Rightarrow> None
            | Some arr \<Rightarrow>
                map_option (\<lambda>arr'. a\<lparr>m_Array := arr'\<rparr>)
                  (shl_bits arr (BIT_CHAR (m_NumBits a - 1)) (unat shifts mod 8)))"
  unfolding op_shl_assign_def Let_def CHAR_BIT_def by (simp only: assms if_False)

lemma op_shr_assign_unfold:
  assumes "\<not> unat (m_NumBits a) \<le> unat shifts mod 8"
  shows "op_shr_assign a shifts =
           (case (if 0 < unat shifts div 8
                  then (case shr_move (m_Array a) (unat shifts div 8)
                               (BIT_CHAR (m_NumBits a - 1)) of
                          None \<Rightarrow> None
                        | Some arr0 \<Rightarrow> shr_zero arr0 (unat shifts div 8))
                  else Some (m_Array a)) of
              None \<Rightarrow> None
            | Some arr \<Rightarrow>
                (case shr_bits arr (BIT_CHAR (m_NumBits a - 1)) (unat shifts mod 8) of
                   None \<Rightarrow> None
                 | Some arr1 \<Rightarrow>
                     (if unat (m_NumBits a) mod 8 \<noteq> 0
                      then (case read_at arr1 (BIT_CHAR (m_NumBits a - 1)) of
                              None \<Rightarrow> None
                            | Some x \<Rightarrow>
                                Some (a\<lparr>m_Array := arr1[BIT_CHAR (m_NumBits a - 1) :=
                                        x AND push_bit (8 - unat (m_NumBits a) mod 8) UCHAR_MAX]\<rparr>))
                      else Some (a\<lparr>m_Array := arr1\<rparr>))))"
  unfolding op_shr_assign_def Let_def CHAR_BIT_def by (simp only: assms if_False)



section \<open>Double negation\<close>

text \<open>
  C7 as stated fails.  \<open>Not\<close> clears the spare bits, the second constructor does not:
  the vector of 4 bits built from the character \<open>0xFF\<close> is negated to \<open>0x00\<close> and then
  to \<open>0xF0\<close>, which \<open>operator==\<close> tells from \<open>0xFF\<close>.
\<close>

theorem not_not_counterexample:
  "op_not \<lparr>m_NumBits = 4, m_Array = [255]\<rparr> = Some \<lparr>m_NumBits = 4, m_Array = [0]\<rparr>
   \<and> op_not \<lparr>m_NumBits = 4, m_Array = [0]\<rparr> = Some \<lparr>m_NumBits = 4, m_Array = [240]\<rparr>
   \<and> \<not> op_eq \<lparr>m_NumBits = 4, m_Array = [240]\<rparr> \<lparr>m_NumBits = 4, m_Array = [255]\<rparr>"
  by (simp add: op_not_def Not_assign_def bit_array_from_vect_def CHAR_BIT_def BIT_CHAR_def
      UCHAR_MAX_def read_at_def op_eq_def)

text \<open>
  C7, as the code has it.  For every vector that satisfies Invariant A and whose spare
  bits are zero, \<open>operator~\<close> applied twice stays inside the storage and returns the
  vector itself, which \<open>operator==\<close> confirms.
\<close>

theorem not_not_identity:
  assumes "invariant_A v" and "spare_bits_zero v"
  shows "\<exists>w u. op_not v = Some w \<and> op_not w = Some u \<and> op_eq u v \<and> u = v"
proof -
  from Not_assign_twice [OF assms] obtain w where
    "Not_assign v = Some w" and "Not_assign w = Some v"
    by blast
  then have "op_not v = Some w \<and> op_not w = Some v \<and> op_eq v v \<and> v = v"
    by (simp add: op_not_def from_vect_self op_eq_def)
  then show ?thesis by blast
qed

theorem not_not_identity_witness:
  "\<exists>w u. op_not \<lparr>m_NumBits = 20, m_Array = [165, 0, 240]\<rparr> = Some w \<and> op_not w = Some u
     \<and> op_eq u \<lparr>m_NumBits = 20, m_Array = [165, 0, 240]\<rparr>
     \<and> u = \<lparr>m_NumBits = 20, m_Array = [165, 0, 240]\<rparr>"
  by (rule not_not_identity [OF example_well_formed])

section \<open>Invariant B under the mutating operations\<close>




section \<open>Increment and decrement as arithmetic on the bits\<close>

text \<open>
  The number in base 256 that the characters spell is the sum of the weights of the
  stored bits.  With Invariant A and zero spare bits it is the value of the bits
  \<open>0, \<dots>, m_NumBits - 1\<close> shifted left by the number of spare bits, and two such
  vectors of the same number of bits with the same value have the same characters.
\<close>

lemma unat_bit_sum: "unat (x::uchar) = (\<Sum>k<8. if bit x k then 2 ^ k else 0)"
proof -
  have "unat x < 2 ^ 8"
    using unsigned_less [of x] by simp
  then have "unat x = take_bit 8 (unat x)"
    by (simp only: take_bit_nat_eq_self)
  also have "\<dots> = horner_sum of_bool 2 (map (bit (unat x)) [0..<8])"
    by (simp only: horner_sum_bit_eq_take_bit)
  also have "\<dots> = (\<Sum>k = 0..<8. of_bool (bit (unat x) k) * 2 ^ k)"
    by (simp add: horner_sum_eq_sum)
  also have "\<dots> = (\<Sum>k = 0..<8. if bit x k then 2 ^ k else 0)"
    by (intro sum.cong) (auto simp add: bit_unsigned_iff)
  finally show ?thesis
    by (simp only: atLeast0LessThan)
qed

lemma unat_position_sum:
  "unat (x::uchar) = (\<Sum>q<8. if bit x (7 - q) then 2 ^ (7 - q) else 0)"
proof -
  have "(\<Sum>q<8. if bit x (8 - Suc q) then 2 ^ (8 - Suc q) else 0)
          = (\<Sum>k<8. if bit x k then (2::nat) ^ k else 0)"
    by (rule sum.nat_diff_reindex [of "\<lambda>k. if bit x k then 2 ^ k else 0" 8])
  moreover have "8 - Suc q = 7 - q" for q
    by simp
  ultimately show ?thesis
    by (simp only: unat_bit_sum)
qed

lemma stored_bit_append_left:
  "p < 8 * length xs \<Longrightarrow> stored_bit (xs @ ys) p = stored_bit xs p"
proof -
  assume "p < 8 * length xs"
  then have "p div 8 < length xs"
    by linarith
  then show ?thesis
    by (simp add: stored_bit_def nth_append)
qed

lemma stored_bit_append_last:
  "q < 8 \<Longrightarrow> stored_bit (xs @ [x]) (8 * length xs + q) = bit x (7 - q)"
  by (simp add: stored_bit_def nth_append)

lemma be_val_position_sum:
  "be_val arr = (\<Sum>p<8 * length arr. if stored_bit arr p then 2 ^ (8 * length arr - 1 - p) else 0)"
proof (induction arr rule: rev_induct)
  case Nil
  show ?case by simp
next
  case (snoc x xs)
  let ?L = "length xs"
  let ?f = "\<lambda>p. if stored_bit (xs @ [x]) p then (2::nat) ^ (8 * length (xs @ [x]) - 1 - p) else 0"
  have split: "sum ?f {0..<8 * ?L} + sum ?f {8 * ?L..<8 * ?L + 8} = sum ?f {0..<8 * ?L + 8}"
    by (rule sum.atLeastLessThan_concat) simp_all
  have low: "sum ?f {0..<8 * ?L} = 256 * be_val xs"
  proof -
    have "sum ?f {0..<8 * ?L}
            = (\<Sum>p = 0..<8 * ?L. 256 * (if stored_bit xs p then 2 ^ (8 * ?L - 1 - p) else 0))"
    proof (rule sum.cong [OF refl])
      fix p assume "p \<in> {0..<8 * ?L}"
      then have p: "p < 8 * ?L" by simp
      then have "8 * length (xs @ [x]) - 1 - p = 8 + (8 * ?L - 1 - p)"
        by simp
      then have "(2::nat) ^ (8 * length (xs @ [x]) - 1 - p) = 256 * 2 ^ (8 * ?L - 1 - p)"
        by (simp only: power_add) simp
      then show "?f p = 256 * (if stored_bit xs p then 2 ^ (8 * ?L - 1 - p) else 0)"
        by (simp only: stored_bit_append_left [OF p]) simp
    qed
    also have "\<dots> = 256 * (\<Sum>p = 0..<8 * ?L. if stored_bit xs p then 2 ^ (8 * ?L - 1 - p) else 0)"
      by (simp only: sum_distrib_left)
    finally show ?thesis
      by (simp only: snoc.IH atLeast0LessThan)
  qed
  have high: "sum ?f {8 * ?L..<8 * ?L + 8} = unat x"
  proof -
    have "sum ?f {0 + 8 * ?L..<8 + 8 * ?L} = (\<Sum>q = 0..<8. ?f (q + 8 * ?L))"
      by (rule sum.shift_bounds_nat_ivl)
    also have "\<dots> = (\<Sum>q = 0..<8. if bit x (7 - q) then 2 ^ (7 - q) else 0)"
    proof (rule sum.cong [OF refl])
      fix q :: nat assume "q \<in> {0..<8}"
      then have q: "q < 8" by simp
      have "8 * length (xs @ [x]) - 1 - (q + 8 * ?L) = 7 - q"
        by simp
      moreover have "stored_bit (xs @ [x]) (q + 8 * ?L) = bit x (7 - q)"
        using stored_bit_append_last [OF q, of xs x] by (simp only: add.commute)
      ultimately show "?f (q + 8 * ?L) = (if bit x (7 - q) then 2 ^ (7 - q) else 0)"
        by (simp only:)
    qed
    finally show ?thesis
      by (simp only: unat_position_sum atLeast0LessThan add_0 add.commute [of 8])
  qed
  have "be_val (xs @ [x]) = sum ?f {0..<8 * ?L + 8}"
    by (simp only: be_val_snoc low high split [symmetric])
  then show ?case
    by (simp add: atLeast0LessThan add.commute)
qed

lemma bits_within_storage:
  assumes "invariant_A a"
  shows "unat (m_NumBits a) \<le> 8 * length (m_Array a)"
    and "8 * (length (m_Array a) - 1) \<le> unat (m_NumBits a)"
proof -
  define n q r where "n = unat (m_NumBits a)" and "q = n div 8" and "r = n mod 8"
  have n: "n = 8 * q + r" and r: "r < 8"
    by (simp_all add: q_def r_def)
  have L: "length (m_Array a) = (if r = 0 then q else q + 1)"
    using assms ceil8_mod_zero [of n] ceil8_mod_nonzero [of n]
    by (simp add: invariant_A_def n_def [symmetric] q_def r_def)
  show "unat (m_NumBits a) \<le> 8 * length (m_Array a)"
    unfolding n_def [symmetric] L using n r by (cases "r = 0") simp_all
  show "8 * (length (m_Array a) - 1) \<le> unat (m_NumBits a)"
    unfolding n_def [symmetric] L using n r by (cases "r = 0") simp_all
qed

lemma be_val_bits_value:
  assumes "invariant_A a" and "spare_bits_zero a"
  shows "be_val (m_Array a)
           = 2 ^ (8 * length (m_Array a) - unat (m_NumBits a)) * bits_value a"
proof -
  let ?n = "unat (m_NumBits a)"
  let ?N = "8 * length (m_Array a)"
  let ?f = "\<lambda>p. if stored_bit (m_Array a) p then (2::nat) ^ (?N - 1 - p) else 0"
  note b = bits_within_storage [OF assms(1)]
  have "be_val (m_Array a) = sum ?f {0..<?N}"
    by (simp only: be_val_position_sum atLeast0LessThan)
  also have "\<dots> = sum ?f {0..<?n} + sum ?f {?n..<?N}"
    using b(1) by (simp only: sum.atLeastLessThan_concat [OF le0])
  also have "sum ?f {?n..<?N} = 0"
  proof (rule sum.neutral, rule ballI)
    fix p assume "p \<in> {?n..<?N}"
    then have p: "?n \<le> p" "p < ?N"
      by simp_all
    then have "p \<in> {8 * (length (m_Array a) - 1) ..< ?N}"
      using b(2) by simp
    then have "\<not> stored_bit (m_Array a) p"
      using assms(2) p(1) by (simp add: spare_bits_zero_def)
    then show "?f p = 0"
      by simp
  qed
  also have "sum ?f {0..<?n}
               = (\<Sum>p = 0..<?n. 2 ^ (?N - ?n) *
                    (if stored_bit (m_Array a) p then 2 ^ (?n - 1 - p) else 0))"
  proof (rule sum.cong [OF refl])
    fix p assume "p \<in> {0..<?n}"
    then have "p < ?n" by simp
    then have "?N - 1 - p = (?N - ?n) + (?n - 1 - p)"
      using b(1) by linarith
    then have "(2::nat) ^ (?N - 1 - p) = 2 ^ (?N - ?n) * 2 ^ (?n - 1 - p)"
      by (simp only: power_add)
    then show "?f p = 2 ^ (?N - ?n) * (if stored_bit (m_Array a) p then 2 ^ (?n - 1 - p) else 0)"
      by simp
  qed
  also have "\<dots> = 2 ^ (?N - ?n) * bits_value a"
    by (simp only: sum_distrib_left bits_value_def atLeast0LessThan)
  finally show ?thesis
    by simp
qed

lemma storage_radix:
  assumes "invariant_A a"
  shows "(256::nat) ^ length (m_Array a)
           = 2 ^ (8 * length (m_Array a) - unat (m_NumBits a)) * 2 ^ unat (m_NumBits a)"
proof -
  have "(256::nat) ^ length (m_Array a) = 2 ^ (8 * length (m_Array a))"
    by (simp add: power_mult)
  also have "8 * length (m_Array a)
               = (8 * length (m_Array a) - unat (m_NumBits a)) + unat (m_NumBits a)"
    using bits_within_storage(1) [OF assms] by simp
  finally show ?thesis
    by (simp only: power_add)
qed

lemma bits_value_less:
  assumes "invariant_A a" and "spare_bits_zero a"
  shows "bits_value a < 2 ^ unat (m_NumBits a)"
proof -
  have "2 ^ (8 * length (m_Array a) - unat (m_NumBits a)) * bits_value a
          < 2 ^ (8 * length (m_Array a) - unat (m_NumBits a)) * 2 ^ unat (m_NumBits a)"
    using be_val_less [of "m_Array a"]
    by (simp only: be_val_bits_value [OF assms] storage_radix [OF assms(1)])
  then show ?thesis
    by simp
qed

lemma be_val_inj:
  assumes "length xs = length ys" and "be_val xs = be_val ys"
  shows "xs = ys"
  using assms
proof (induction xs arbitrary: ys rule: rev_induct)
  case Nil
  then show ?case by simp
next
  case (snoc x xs)
  from snoc.prems(1) obtain y ys' where ys: "ys = ys' @ [y]"
    by (cases ys rule: rev_cases) simp_all
  have x: "unat x < 256" and y: "unat y < 256"
    using unsigned_less [of x] unsigned_less [of y] by simp_all
  have e: "256 * be_val xs + unat x = 256 * be_val ys' + unat y"
    using snoc.prems(2) by (simp add: ys)
  have "(256 * be_val xs + unat x) div 256 = be_val xs"
    and "(256 * be_val ys' + unat y) div 256 = be_val ys'"
    and "(256 * be_val xs + unat x) mod 256 = unat x"
    and "(256 * be_val ys' + unat y) mod 256 = unat y"
    using x y by simp_all
  with e have "be_val xs = be_val ys'" and u: "unat x = unat y"
    by simp_all
  moreover have "length xs = length ys'"
    using snoc.prems(1) by (simp add: ys)
  ultimately have "xs = ys'"
    using snoc.IH by blast
  moreover have "x = y"
    using u by (simp add: word_unat_eq_iff)
  ultimately show ?case
    by (simp add: ys)
qed

lemma bits_value_inj:
  assumes "invariant_A a" "spare_bits_zero a" "invariant_A b" "spare_bits_zero b"
    and "m_NumBits a = m_NumBits b" and "bits_value a = bits_value b"
  shows "m_Array a = m_Array b"
proof -
  have l: "length (m_Array a) = length (m_Array b)"
    using assms(1,3,5) by (simp add: invariant_A_def)
  then have "be_val (m_Array a) = be_val (m_Array b)"
    by (simp only: be_val_bits_value [OF assms(1,2)] be_val_bits_value [OF assms(3,4)] assms(5,6))
  with l show ?thesis
    by (rule be_val_inj)
qed

lemma pred_mod:
  assumes "x < M"
  shows "int x = (int ((x + 1) mod M) - 1) mod int M"
proof -
  have "(int ((x + 1) mod M) - 1) mod int M = ((int x + 1) mod int M - 1) mod int M"
    by (simp add: zmod_int add.commute)
  also have "\<dots> = (int x + 1 - 1) mod int M"
    by (rule mod_diff_left_eq)
  also have "\<dots> = int x"
    using assms by simp
  finally show ?thesis ..
qed

lemma bit_array_eqI:
  "m_NumBits a = m_NumBits b \<Longrightarrow> m_Array a = m_Array b \<Longrightarrow> a = (b::bit_array_c)"
  by (cases a, cases b) simp

lemma op_inc_bits_value:
  assumes "invariant_A a" and "spare_bits_zero a" and "m_NumBits a \<noteq> 0"
  shows "\<exists>a'. op_inc a = Some a' \<and> m_NumBits a' = m_NumBits a
           \<and> invariant_A a' \<and> spare_bits_zero a'
           \<and> bits_value a' = (bits_value a + 1) mod 2 ^ unat (m_NumBits a)"
proof -
  let ?P = "(2::nat) ^ (8 * length (m_Array a) - unat (m_NumBits a))"
  let ?M = "(2::nat) ^ unat (m_NumBits a)"
  from op_inc_value [OF assms] obtain a' where
    r: "op_inc a = Some a'" and n: "m_NumBits a' = m_NumBits a"
    and w: "invariant_A a'" "spare_bits_zero a'"
    and v: "be_val (m_Array a') = (be_val (m_Array a) + ?P) mod 256 ^ length (m_Array a)"
    by blast
  have l: "length (m_Array a') = length (m_Array a)"
    using w(1) assms(1) n by (simp add: invariant_A_def)
  have "?P * bits_value a' = (?P * bits_value a + ?P) mod (?P * ?M)"
    using v
    by (simp only: be_val_bits_value [OF w] be_val_bits_value [OF assms(1,2)] l n
          storage_radix [OF assms(1)])
  also have "?P * bits_value a + ?P = ?P * (bits_value a + 1)"
    by simp
  also have "(?P * (bits_value a + 1)) mod (?P * ?M) = ?P * ((bits_value a + 1) mod ?M)"
    by (rule mult_mod_right [symmetric])
  finally have "bits_value a' = (bits_value a + 1) mod ?M"
    by simp
  with r n w show ?thesis
    by blast
qed

lemma op_dec_bits_value:
  assumes "invariant_A a" and "spare_bits_zero a" and "m_NumBits a \<noteq> 0"
  shows "\<exists>a'. op_dec a = Some a' \<and> m_NumBits a' = m_NumBits a
           \<and> invariant_A a' \<and> spare_bits_zero a'
           \<and> (bits_value a' + 1) mod 2 ^ unat (m_NumBits a) = bits_value a"
proof -
  let ?P = "(2::nat) ^ (8 * length (m_Array a) - unat (m_NumBits a))"
  let ?M = "(2::nat) ^ unat (m_NumBits a)"
  from op_dec_value [OF assms] obtain a' where
    r: "op_dec a = Some a'" and n: "m_NumBits a' = m_NumBits a"
    and w: "invariant_A a'" "spare_bits_zero a'"
    and v: "(be_val (m_Array a') + ?P) mod 256 ^ length (m_Array a) = be_val (m_Array a)"
    by blast
  have l: "length (m_Array a') = length (m_Array a)"
    using w(1) assms(1) n by (simp add: invariant_A_def)
  have "(?P * bits_value a' + ?P) mod (?P * ?M) = ?P * bits_value a"
    using v
    by (simp only: be_val_bits_value [OF w] be_val_bits_value [OF assms(1,2)] l n
          storage_radix [OF assms(1)])
  moreover have "?P * bits_value a' + ?P = ?P * (bits_value a' + 1)"
    by simp
  moreover have "(?P * (bits_value a' + 1)) mod (?P * ?M) = ?P * ((bits_value a' + 1) mod ?M)"
    by (rule mult_mod_right [symmetric])
  ultimately have "?P * ((bits_value a' + 1) mod ?M) = ?P * bits_value a"
    by (simp only:)
  then have "(bits_value a' + 1) mod ?M = bits_value a"
    by simp
  with r n w show ?thesis
    by blast
qed

text \<open>
  C4.  Let the vector have at least one bit, \<open>ceil(length / 8)\<close> characters (Invariant A,
  which the data model requires of every vector) and zero spare bits, and read its bits
  as an unsigned integer \<open>v\<close> with bit 0 most significant.  Then \<open>operator++\<close> and
  \<open>operator--\<close> stay inside the storage and keep the number of bits \<open>n\<close>; the value
  after \<open>++\<close> is \<open>(v + 1) mod 2 ^ n\<close> and the value after \<open>--\<close> is
  \<open>(v - 1) mod 2 ^ n\<close>.  So the all-ones value \<open>2 ^ n - 1\<close> is incremented to 0, the
  value 0 is decremented to \<open>2 ^ n - 1\<close>, and \<open>--\<close> after \<open>++\<close> gives back the vector
  itself (for every value, overflowing or not).
\<close>

theorem inc_dec_value:
  assumes "m_NumBits a \<noteq> 0" and "invariant_A a" and "spare_bits_zero a"
  shows "\<exists>i d. op_inc a = Some i \<and> op_dec a = Some d
           \<and> m_NumBits i = m_NumBits a \<and> m_NumBits d = m_NumBits a
           \<and> bits_value i = (bits_value a + 1) mod 2 ^ unat (m_NumBits a)
           \<and> int (bits_value d) = (int (bits_value a) - 1) mod 2 ^ unat (m_NumBits a)
           \<and> (bits_value a = 2 ^ unat (m_NumBits a) - 1 \<longrightarrow> bits_value i = 0)
           \<and> (bits_value a = 0 \<longrightarrow> bits_value d = 2 ^ unat (m_NumBits a) - 1)
           \<and> op_dec i = Some a"
proof -
  let ?M = "(2::nat) ^ unat (m_NumBits a)"
  from op_inc_bits_value [OF assms(2,3,1)] obtain i where
    ri: "op_inc a = Some i" and ni: "m_NumBits i = m_NumBits a"
    and wi: "invariant_A i" "spare_bits_zero i"
    and vi: "bits_value i = (bits_value a + 1) mod ?M"
    by blast
  from op_dec_bits_value [OF assms(2,3,1)] obtain d where
    rd: "op_dec a = Some d" and nd: "m_NumBits d = m_NumBits a"
    and wd: "invariant_A d" "spare_bits_zero d"
    and vd: "(bits_value d + 1) mod ?M = bits_value a"
    by blast
  have ni0: "m_NumBits i \<noteq> 0"
    using assms(1) ni by simp
  from op_dec_bits_value [OF wi ni0] obtain e where
    re: "op_dec i = Some e" and ne: "m_NumBits e = m_NumBits a"
    and we: "invariant_A e" "spare_bits_zero e"
    and ve: "(bits_value e + 1) mod ?M = bits_value i"
    using ni by auto
  have la: "bits_value a < ?M"
    by (rule bits_value_less [OF assms(2,3)])
  have ld: "bits_value d < ?M"
    using bits_value_less [OF wd] nd by simp
  have le: "bits_value e < ?M"
    using bits_value_less [OF we] ne by simp
  have dv: "int (bits_value d) = (int (bits_value a) - 1) mod int ?M"
    using pred_mod [OF ld] by (simp only: vd)
  have "int (bits_value e) = (int (bits_value i) - 1) mod int ?M"
    using pred_mod [OF le] by (simp only: ve)
  also have "\<dots> = (int ((bits_value a + 1) mod ?M) - 1) mod int ?M"
    by (simp only: vi)
  also have "\<dots> = int (bits_value a)"
    by (rule pred_mod [OF la, symmetric])
  finally have "bits_value e = bits_value a"
    by simp
  then have "m_Array e = m_Array a"
    by (rule bits_value_inj [OF we assms(2,3) ne])
  then have ea: "e = a"
    using ne by (intro bit_array_eqI)
  have top: "bits_value i = 0" if "bits_value a = ?M - 1"
    unfolding vi that by simp
  have bot: "bits_value d = ?M - 1" if "bits_value a = 0"
  proof -
    have "int (bits_value d) = (- 1) mod int ?M"
      using dv that by simp
    also have "\<dots> = int ?M - 1"
      by (simp add: zmod_minus1)
    also have "\<dots> = int (?M - 1)"
      by (simp add: of_nat_diff)
    finally show ?thesis
      by (simp only: of_nat_eq_iff)
  qed
  from ri rd ni nd vi dv top bot re ea show ?thesis
    by (intro exI [of _ i] exI [of _ d]) simp
qed

theorem inc_dec_value_witness:
  "\<exists>i d. op_inc \<lparr>m_NumBits = 20, m_Array = [255, 255, 240]\<rparr> = Some i
         \<and> op_dec \<lparr>m_NumBits = 20, m_Array = [255, 255, 240]\<rparr> = Some d
         \<and> m_NumBits i = 20 \<and> m_NumBits d = 20
         \<and> bits_value i = (bits_value \<lparr>m_NumBits = 20, m_Array = [255, 255, 240]\<rparr> + 1) mod 2 ^ 20
         \<and> int (bits_value d)
             = (int (bits_value \<lparr>m_NumBits = 20, m_Array = [255, 255, 240]\<rparr>) - 1) mod 2 ^ 20
         \<and> op_dec i = Some \<lparr>m_NumBits = 20, m_Array = [255, 255, 240]\<rparr>"
proof -
  have h: "m_NumBits \<lparr>m_NumBits = 20, m_Array = [255, 255, 240::uchar]\<rparr> \<noteq> 0"
    by simp
  from inc_dec_value [OF h example_well_formed [of 255 255]] show ?thesis
    by simp blast
qed

section \<open>Shifts by at least the number of bits, inside the storage\<close>

text \<open>
  The counterpart of the out-of-bounds writes shown above.  A shift by \<open>k\<close> with \<open>k\<close> at least the
  number of bits moves \<open>k / 8\<close> whole characters, and \<open>k / 8\<close> is then at least the
  number of characters minus one.  As long as it does not exceed the number of
  characters, the zero fill stays inside the storage and covers every character but
  one, and the bit shifts that follow push the remaining bits out.
\<close>

lemma shift_chars_cases:
  assumes "invariant_A a"
    and "\<not> unat (m_NumBits a) \<le> unat k mod 8"
    and "unat (m_NumBits a) \<le> unat k"
    and "unat k div 8 \<le> length (m_Array a)"
  shows "0 < unat k div 8"
    and "unat k div 8 = length (m_Array a)
         \<or> (unat k div 8 = length (m_Array a) - 1
             \<and> 8 \<le> (8 * length (m_Array a) - unat (m_NumBits a)) + unat k mod 8)"
proof -
  define n L c s :: nat where "n = unat (m_NumBits a)" and "L = length (m_Array a)"
    and "c = unat k div 8" and "s = unat k mod 8"
  have k: "unat k = 8 * c + s"
    by (simp only: c_def s_def mult_div_mod_eq)
  have s: "s < 8"
    by (simp add: s_def)
  have b: "n \<le> 8 * L" "8 * (L - 1) \<le> n"
    using bits_within_storage [OF assms(1)] by (simp_all add: n_def L_def)
  have h1: "\<not> n \<le> s"
    using assms(2) by (simp only: n_def s_def simp_thms)
  have h2: "n \<le> 8 * c + s"
    using assms(3) by (simp only: k [symmetric] n_def simp_thms)
  have h3: "c \<le> L"
    using assms(4) by (simp only: c_def L_def simp_thms)
  note h = h1 h2 h3
  show "0 < unat k div 8"
    unfolding c_def [symmetric] using h by (cases "c = 0") simp_all
  have "c = L \<or> (c = L - 1 \<and> 8 \<le> (8 * L - n) + s)"
  proof (cases "c = L")
    case True
    then show ?thesis ..
  next
    case False
    have "\<not> c + 2 \<le> L"
    proof
      assume "c + 2 \<le> L"
      then have "8 * c + 8 \<le> 8 * (L - 1)"
        by linarith
      with s h(2) b(2) show False
        by linarith
    qed
    with False h(3) have c: "c = L - 1" and L: "1 \<le> L"
      by linarith+
    have "8 * L = 8 * c + 8"
      using c L by linarith
    with h(2) b(1) have "8 \<le> (8 * L - n) + s"
      by linarith
    with c show ?thesis by blast
  qed
  then show "unat k div 8 = length (m_Array a)
         \<or> (unat k div 8 = length (m_Array a) - 1
             \<and> 8 \<le> (8 * length (m_Array a) - unat (m_NumBits a)) + unat k mod 8)"
    by (simp only: n_def L_def c_def s_def)
qed

lemma shl_move_nth:
  "j < length arr \<Longrightarrow>
   shl_move arr chars i ! j = (if i \<le> j \<and> j + chars < length arr then arr ! (j + chars) else arr ! j)"
proof (induction arr chars i rule: shl_move.induct)
  case (1 arr chars i)
  show ?case
  proof (cases "i + chars < length arr")
    case False
    then have "\<not> (i \<le> j \<and> j + chars < length arr)"
      by linarith
    with False show ?thesis
      by (simp only: shl_move.simps [of arr chars i] if_False)
  next
    case True
    let ?arr1 = "arr[i := arr ! (i + chars)]"
    have "j < length ?arr1"
      using "1.prems" by simp
    from "1.IH" [OF True this]
    have ih: "shl_move ?arr1 chars (Suc i) ! j
                = (if Suc i \<le> j \<and> j + chars < length arr then ?arr1 ! (j + chars) else ?arr1 ! j)"
      by simp
    have "shl_move arr chars i ! j = shl_move ?arr1 chars (Suc i) ! j"
      using True by (simp add: shl_move.simps [of arr chars i])
    also have "\<dots> = (if i \<le> j \<and> j + chars < length arr then arr ! (j + chars) else arr ! j)"
    proof (cases "j = i")
      case True
      with \<open>i + chars < length arr\<close> "1.prems" show ?thesis
        unfolding ih by simp
    next
      case False
      then show ?thesis
        unfolding ih by auto
    qed
    finally show ?thesis .
  qed
qed

lemma shl_zero_nth:
  assumes "c \<le> i" and "i \<le> length arr" and "i < 2 ^ 32"
  shows "\<exists>arr'. shl_zero arr i c = Some arr' \<and> length arr' = length arr
           \<and> (\<forall>j. arr' ! j = (if i - c \<le> j \<and> j < i then 0 else arr ! j))"
  using assms
proof (induction c arbitrary: arr)
  case 0
  then show ?case by auto
next
  case (Suc c)
  let ?arr1 = "arr[i - Suc c := 0]"
  have w: "write_at arr (uint_sub i (Suc c)) 0 = Some ?arr1"
    using Suc.prems by (simp add: uint_sub_le write_at_def)
  have "c \<le> i" and "i \<le> length ?arr1"
    using Suc.prems by simp_all
  from Suc.IH [OF this Suc.prems(3)] obtain arr' where
    r: "shl_zero ?arr1 i c = Some arr'" and l: "length arr' = length arr"
    and z: "\<forall>j. arr' ! j = (if i - c \<le> j \<and> j < i then 0 else ?arr1 ! j)"
    by auto
  have "shl_zero arr i (Suc c) = Some arr'"
    using w r by simp
  moreover have "arr' ! j = (if i - Suc c \<le> j \<and> j < i then 0 else arr ! j)" for j
  proof (cases "j = i - Suc c")
    case True
    then have "?arr1 ! j = 0" and "j < i"
      using Suc.prems by simp_all
    with True show ?thesis
      using z by simp
  next
    case False
    then have "?arr1 ! j = arr ! j"
      by simp
    moreover have "(i - c \<le> j \<and> j < i) = (i - Suc c \<le> j \<and> j < i)"
      using False Suc.prems(1) by linarith
    ultimately show ?thesis
      using z by simp
  qed
  ultimately show ?case
    using l by blast
qed

lemma shr_zero_nth:
  assumes "c \<le> length arr"
  shows "\<exists>arr'. shr_zero arr c = Some arr' \<and> length arr' = length arr
           \<and> (\<forall>j. arr' ! j = (if j < c then 0 else arr ! j))"
  using assms
proof (induction c arbitrary: arr)
  case 0
  then show ?case by simp
next
  case (Suc c)
  let ?arr1 = "arr[c := 0]"
  have w: "write_at arr c 0 = Some ?arr1"
    using Suc.prems by (simp add: write_at_def)
  have "c \<le> length ?arr1"
    using Suc.prems by simp
  from Suc.IH [OF this] obtain arr' where
    r: "shr_zero ?arr1 c = Some arr'" and l: "length arr' = length arr"
    and z: "\<forall>j. arr' ! j = (if j < c then 0 else ?arr1 ! j)"
    by auto
  have "shr_zero arr (Suc c) = Some arr'"
    using w r by simp
  moreover have "arr' ! j = (if j < Suc c then 0 else arr ! j)" for j
  proof (cases "j = c")
    case True
    then show ?thesis
      using z Suc.prems by simp
  next
    case False
    then show ?thesis
      using z by auto
  qed
  ultimately show ?case
    using l by blast
qed

lemma list_update_known: "xs ! i = v \<Longrightarrow> xs[i := v] = xs"
  using list_update_id [of xs i] by simp

lemma shl_bit_inner_step:
  "j < lastc \<Longrightarrow> Suc j < length arr \<Longrightarrow> arr ! Suc j = 0 \<Longrightarrow>
   shl_bit_inner arr lastc j = shl_bit_inner (arr[j := push_bit 1 (arr ! j)]) lastc (Suc j)"
  by (subst shl_bit_inner.simps) simp

lemma shl_bit_inner_stop: "\<not> j < lastc \<Longrightarrow> shl_bit_inner arr lastc j = Some arr"
  by (subst shl_bit_inner.simps) simp

lemma shl_bit_inner_zero:
  assumes "lastc < length arr" and "\<forall>j'. j \<le> j' \<and> j' \<le> lastc \<longrightarrow> arr ! j' = 0"
  shows "shl_bit_inner arr lastc j = Some arr"
  using assms
proof (induction arr lastc j rule: shl_bit_inner.induct)
  case (1 arr lastc j)
  show ?case
  proof (cases "j < lastc")
    case False
    then show ?thesis
      by (simp add: shl_bit_inner.simps [of arr lastc j])
  next
    case True
    have sj: "Suc j < length arr"
      using True "1.prems"(1) by simp
    have z: "arr ! j = 0" "arr ! Suc j = 0"
      using True "1.prems"(2) by simp_all
    have same: "arr[j := (if arr ! Suc j AND MS_BIT \<noteq> 0
                          then push_bit 1 (arr ! j) OR 1 else push_bit 1 (arr ! j))] = arr"
      using z list_update_known [of arr j 0] by simp
    have "\<forall>j'. Suc j \<le> j' \<and> j' \<le> lastc \<longrightarrow> arr ! j' = 0"
      using "1.prems"(2) by simp
    with "1.IH" [OF True sj] "1.prems"(1) have "shl_bit_inner arr lastc (Suc j) = Some arr"
      unfolding same by blast
    then show ?thesis
      using True sj same by (simp add: shl_bit_inner.simps [of arr lastc j])
  qed
qed

lemma shl_bits_first_only:
  assumes "0 < length arr" and "\<forall>j. 0 < j \<and> j < length arr \<longrightarrow> arr ! j = 0"
  shows "shl_bits arr (length arr - 1) s = Some (arr[0 := push_bit s (arr ! 0)])"
  using assms
proof (induction s arbitrary: arr)
  case 0
  then show ?case by simp
next
  case (Suc s)
  let ?lastc = "length arr - 1"
  let ?arr2 = "arr[0 := push_bit 1 (arr ! 0)]"
  have l: "?lastc < length arr"
    using Suc.prems(1) by simp
  have pass: "(case shl_bit_inner arr ?lastc 0 of
                 None \<Rightarrow> None
               | Some arr1 \<Rightarrow>
                   (case read_at arr1 ?lastc of
                      None \<Rightarrow> None
                    | Some x \<Rightarrow> Some (arr1[?lastc := push_bit 1 x]))) = Some ?arr2"
  proof (cases "0 < ?lastc")
    case False
    then have l0: "?lastc = 0"
      by simp
    have "shl_bit_inner arr 0 0 = Some arr"
      by (simp add: shl_bit_inner.simps [of arr 0 0])
    with Suc.prems(1) show ?thesis
      unfolding l0 by (simp add: read_at_def)
  next
    case True
    have s1: "Suc 0 < length arr"
      using True by simp
    have z1: "arr ! Suc 0 = 0"
      using Suc.prems(2) s1 by simp
    have "\<forall>j'. Suc 0 \<le> j' \<and> j' \<le> ?lastc \<longrightarrow> ?arr2 ! j' = 0"
    proof (intro allI impI)
      fix j' assume "Suc 0 \<le> j' \<and> j' \<le> ?lastc"
      then have "0 < j'" and "j' < length arr"
        using l by linarith+
      then show "?arr2 ! j' = 0"
        using Suc.prems(2) by simp
    qed
    moreover have "?lastc < length ?arr2"
      using l by simp
    ultimately have "shl_bit_inner ?arr2 (length arr - 1) (Suc 0) = Some ?arr2"
      by (rule shl_bit_inner_zero [rotated])
    then have "shl_bit_inner arr ?lastc 0 = Some ?arr2"
      by (simp only: shl_bit_inner_step [OF True s1 z1])
    moreover have "?arr2 ! ?lastc = 0"
      using True Suc.prems(2) l by simp
    then have "?arr2[?lastc := push_bit 1 (?arr2 ! ?lastc)] = ?arr2"
      using list_update_known [of ?arr2 ?lastc 0] by simp
    ultimately show ?thesis
      using l by (simp add: read_at_def)
  qed
  have "0 < length ?arr2" and "\<forall>j. 0 < j \<and> j < length ?arr2 \<longrightarrow> ?arr2 ! j = 0"
    using Suc.prems by simp_all
  from Suc.IH [OF this] have "shl_bits ?arr2 ?lastc s = Some (?arr2[0 := push_bit s (?arr2 ! 0)])"
    by simp
  moreover have "?arr2[0 := push_bit s (?arr2 ! 0)] = arr[0 := push_bit (Suc s) (arr ! 0)]"
    using Suc.prems(1) by (simp add: push_bit_push_bit)
  moreover have "shl_bits arr ?lastc (Suc s) = shl_bits ?arr2 ?lastc s"
  proof (cases "shl_bit_inner arr ?lastc 0")
    case None
    with pass show ?thesis by simp
  next
    case (Some arr1)
    with pass show ?thesis
      by (cases "read_at arr1 ?lastc") simp_all
  qed
  ultimately show ?case
    by simp
qed

lemma shr_bit_inner_zero:
  assumes "j < length arr" and "\<forall>j'. j' \<le> j \<longrightarrow> arr ! j' = 0"
  shows "shr_bit_inner arr j = Some arr"
  using assms
proof (induction j)
  case 0
  then show ?case by simp
next
  case (Suc j)
  have same: "arr[Suc j := (if arr ! j AND 1 \<noteq> 0
                            then drop_bit 1 (arr ! Suc j) OR MS_BIT
                            else drop_bit 1 (arr ! Suc j))] = arr"
    using Suc.prems list_update_known [of arr "Suc j" 0] by simp
  have "shr_bit_inner arr j = Some arr"
    using Suc.IH Suc.prems by simp
  then show ?case
    using Suc.prems(1) same by simp
qed

lemma shr_bits_last_only:
  assumes "0 < length arr" and "\<forall>j. Suc j < length arr \<longrightarrow> arr ! j = 0"
  shows "shr_bits arr (length arr - 1) s
           = Some (arr[length arr - 1 := drop_bit s (arr ! (length arr - 1))])"
  using assms
proof (induction s arbitrary: arr)
  case 0
  then show ?case by simp
next
  case (Suc s)
  let ?lastc = "length arr - 1"
  let ?arr2 = "arr[?lastc := drop_bit 1 (arr ! ?lastc)]"
  have l: "?lastc < length arr"
    using Suc.prems(1) by simp
  have pass: "(case shr_bit_inner arr ?lastc of
                 None \<Rightarrow> None
               | Some arr1 \<Rightarrow>
                   (case read_at arr1 0 of
                      None \<Rightarrow> None
                    | Some x \<Rightarrow> Some (arr1[0 := drop_bit 1 x]))) = Some ?arr2"
  proof (cases ?lastc)
    case 0
    then have "shr_bit_inner arr ?lastc = Some arr"
      by simp
    with 0 Suc.prems(1) show ?thesis
      by (simp add: read_at_def)
  next
    case (Suc m)
    have sm: "Suc m < length arr"
      using l Suc by simp
    have zm: "arr ! m = 0"
      using Suc.prems(2) sm by simp
    let ?arr1 = "arr[Suc m := drop_bit 1 (arr ! Suc m)]"
    have "m < length ?arr1" and "\<forall>j'. j' \<le> m \<longrightarrow> ?arr1 ! j' = 0"
      using sm Suc.prems(2) by simp_all
    then have "shr_bit_inner ?arr1 m = Some ?arr1"
      by (rule shr_bit_inner_zero)
    then have r1: "shr_bit_inner arr (Suc m) = Some ?arr1"
      using sm zm by simp
    have "0 < length arr"
      using sm by linarith
    then have "0 < length ?arr1"
      by (simp only: length_list_update)
    then have r2: "read_at ?arr1 0 = Some (?arr1 ! 0)"
      by (simp only: read_at_def if_True)
    have "?arr1 ! 0 = 0"
      using Suc.prems(2) sm by simp
    then have r3: "?arr1[0 := drop_bit 1 (?arr1 ! 0)] = ?arr1"
      using list_update_known [of ?arr1 0 0] by simp
    show ?thesis
      by (simp only: r1 r2 r3 option.case Suc)
  qed
  have "0 < length ?arr2" and "\<forall>j. Suc j < length ?arr2 \<longrightarrow> ?arr2 ! j = 0"
    using Suc.prems by simp_all
  from Suc.IH [OF this]
  have "shr_bits ?arr2 ?lastc s = Some (?arr2[?lastc := drop_bit s (?arr2 ! ?lastc)])"
    by simp
  moreover have "?arr2[?lastc := drop_bit s (?arr2 ! ?lastc)]
                   = arr[?lastc := drop_bit (Suc s) (arr ! ?lastc)]"
    using l by (simp add: drop_bit_drop_bit)
  moreover have "shr_bits arr ?lastc (Suc s) = shr_bits ?arr2 ?lastc s"
  proof (cases "shr_bit_inner arr ?lastc")
    case None
    with pass show ?thesis by simp
  next
    case (Some arr1)
    with pass show ?thesis
      by (cases "read_at arr1 0") simp_all
  qed
  ultimately show ?case
    by simp
qed

lemma push_bit_out:
  assumes "\<forall>k. k < sc \<longrightarrow> \<not> bit (x::uchar) k" and "8 \<le> sc + s"
  shows "push_bit s x = 0"
proof (rule bit_eqI)
  fix k
  have "\<not> bit x (k - s)" if "s \<le> k" and "k < 8"
  proof -
    have "k - s < sc"
      using that assms(2) by linarith
    with assms(1) show ?thesis by blast
  qed
  then show "bit (push_bit s x) k = bit (0::uchar) k"
    by (auto simp add: bit_push_bit_iff)
qed

lemma drop_bit_masked_out:
  assumes "8 \<le> sc + s" and "sc \<le> 8"
  shows "drop_bit s (y::uchar) AND push_bit sc UCHAR_MAX = 0"
proof (rule bit_eqI)
  fix k
  have "\<not> bit y (s + k)" if "sc \<le> k"
  proof
    assume "bit y (s + k)"
    then have "s + k < 8"
      using bit_imp_le_length [of y "s + k"] by simp
    with that assms(1) show False
      by linarith
  qed
  then show "bit (drop_bit s y AND push_bit sc UCHAR_MAX) k = bit (0::uchar) k"
    by (auto simp add: bit_and_iff bit_drop_bit_eq bit_high_mask [OF assms(2)] add.commute)
qed

lemma all_zero_replicate:
  assumes "\<forall>j<length arr. arr ! j = (0::uchar)"
  shows "arr = replicate (length arr) 0"
  using assms by (intro nth_equalityI) simp_all

lemma shl_beyond_length_clears:
  assumes "invariant_A a" and "spare_bits_zero a"
    and "unat (m_NumBits a) \<le> unat k" and "unat k div 8 \<le> length (m_Array a)"
  shows "op_shl_assign a k = Some (ClearAll a)"
proof (cases "unat (m_NumBits a) \<le> unat k mod 8")
  case True
  then show ?thesis
    by (simp add: op_shl_assign_def CHAR_BIT_def)
next
  case False
  let ?L = "length (m_Array a)"
  let ?c = "unat k div 8"
  let ?s = "unat k mod 8"
  let ?sc = "8 * ?L - unat (m_NumBits a)"
  let ?mv = "shl_move (m_Array a) ?c 0"
  note cs = shift_chars_cases [OF assms(1) False assms(3,4)]
  have n0: "m_NumBits a \<noteq> 0"
    using False by auto
  note li = last_char_index [OF n0 assms(1)]
  have Lm: "?L mod 2 ^ 32 = ?L"
    using storage_size_less [OF assms(1)] by simp
  have "?L \<le> length ?mv"
    by (simp add: length_shl_move)
  from shl_zero_nth [OF assms(4) this storage_size_less [OF assms(1)]] obtain arr1 where
    r1: "shl_zero ?mv ?L ?c = Some arr1" and l1: "length arr1 = ?L"
    and e1: "\<forall>j. arr1 ! j = (if ?L - ?c \<le> j \<and> j < ?L then 0 else ?mv ! j)"
    by (auto simp add: length_shl_move)
  have z1: "\<forall>j. 0 < j \<and> j < length arr1 \<longrightarrow> arr1 ! j = 0"
  proof (intro allI impI)
    fix j assume "0 < j \<and> j < length arr1"
    then have "?L - ?c \<le> j \<and> j < ?L"
      using cs(2) l1 by linarith
    then show "arr1 ! j = 0"
      using e1 by simp
  qed
  have x0: "push_bit ?s (arr1 ! 0) = 0"
  proof (cases "?c = ?L")
    case True
    then have "arr1 ! 0 = 0"
      using e1 li(2) by simp
    then show ?thesis by simp
  next
    case ne: False
    with cs(2) have c: "?c = ?L - 1" and big: "8 \<le> ?sc + ?s"
      by blast+
    have "?L - (?L - 1) = 1"
      using li(2) by linarith
    then have d: "?L - ?c = 1"
      by (simp only: c)
    have nc: "(?L - ?c \<le> 0 \<and> 0 < ?L) = False"
      by (simp only: d) simp
    have "arr1 ! 0 = (if ?L - ?c \<le> 0 \<and> 0 < ?L then 0 else ?mv ! 0)"
      using e1 by blast
    then have "arr1 ! 0 = ?mv ! 0"
      by (simp only: nc if_False)
    also have "\<dots> = m_Array a ! (0 + ?c)"
      using c li(2) by (simp add: shl_move_nth)
    finally have "arr1 ! 0 = m_Array a ! (?L - 1)"
      using c by simp
    moreover have "\<forall>k. k < ?sc \<longrightarrow> \<not> bit (m_Array a ! (?L - 1)) k"
      using assms(2) unfolding spare_bits_zero_alt by blast
    ultimately show ?thesis
      using push_bit_out [OF _ big, of "arr1 ! 0"] by simp
  qed
  have pos1: "0 < length arr1"
    using li(2) l1 by simp
  have "shl_bits arr1 (?L - 1) ?s = Some (arr1[0 := push_bit ?s (arr1 ! 0)])"
    using shl_bits_first_only [OF pos1 z1, of ?s] by (simp only: l1)
  then have r2: "shl_bits arr1 (?L - 1) ?s = Some (arr1[0 := 0])"
    by (simp only: x0)
  have "\<forall>j<length (arr1[0 := 0]). arr1[0 := 0] ! j = 0"
  proof (intro allI impI)
    fix j assume "j < length (arr1[0 := 0])"
    then show "arr1[0 := 0] ! j = 0"
      using z1 by (cases "j = 0") simp_all
  qed
  from all_zero_replicate [OF this] have zero: "arr1[0 := 0] = replicate ?L 0"
    by (simp add: l1)
  have "op_shl_assign a k = Some (a\<lparr>m_Array := arr1[0 := 0]\<rparr>)"
    using cs(1)
    by (simp only: op_shl_assign_unfold [OF False] Lm li(1) r1 r2 if_True option.case option.map)
  then show ?thesis
    by (simp only: zero ClearAll_def)
qed

lemma shr_beyond_length_clears:
  assumes "invariant_A a"
    and "unat (m_NumBits a) \<le> unat k" and "unat k div 8 \<le> length (m_Array a)"
  shows "op_shr_assign a k = Some (ClearAll a)"
proof (cases "unat (m_NumBits a) \<le> unat k mod 8")
  case True
  then show ?thesis
    by (simp add: op_shr_assign_def CHAR_BIT_def)
next
  case False
  let ?L = "length (m_Array a)"
  let ?c = "unat k div 8"
  let ?s = "unat k mod 8"
  let ?sc = "8 * ?L - unat (m_NumBits a)"
  note cs = shift_chars_cases [OF assms(1) False assms(2,3)]
  have n0: "m_NumBits a \<noteq> 0"
    using False by auto
  note li = last_char_index [OF n0 assms(1)]
  have il: "?L - 1 < ?L"
    using li(2) by simp
  from shr_move_result [OF il, of ?c] obtain arr0 where
    r0: "shr_move (m_Array a) ?c (?L - 1) = Some arr0" and l0: "length arr0 = ?L"
    by blast
  have "?c \<le> length arr0"
    using assms(3) l0 by simp
  from shr_zero_nth [OF this] obtain arr1 where
    r1: "shr_zero arr0 ?c = Some arr1" and l1: "length arr1 = ?L"
    and e1: "\<forall>j. arr1 ! j = (if j < ?c then 0 else arr0 ! j)"
    using l0 by auto
  have z1: "\<forall>j. Suc j < length arr1 \<longrightarrow> arr1 ! j = 0"
  proof (intro allI impI)
    fix j assume "Suc j < length arr1"
    then have "j < ?c"
      using cs(2) l1 by linarith
    then show "arr1 ! j = 0"
      using e1 by simp
  qed
  have pos1: "0 < length arr1"
    using li(2) l1 by simp
  let ?y = "arr1 ! (?L - 1)"
  have r2: "shr_bits arr1 (?L - 1) ?s = Some (arr1[?L - 1 := drop_bit ?s ?y])"
    using shr_bits_last_only [OF pos1 z1, of ?s] by (simp only: l1)
  have yc: "?y = 0" if "?c = ?L"
    using e1 il that by simp
  have allz: "arr1[?L - 1 := 0] = replicate ?L 0"
  proof -
    have "\<forall>j<length (arr1[?L - 1 := 0]). arr1[?L - 1 := 0] ! j = 0"
    proof (intro allI impI)
      fix j assume j: "j < length (arr1[?L - 1 := 0])"
      show "arr1[?L - 1 := 0] ! j = 0"
      proof (cases "j = ?L - 1")
        case True
        with j show ?thesis by simp
      next
        case ne: False
        with j have "Suc j < length arr1"
          using l1 by simp
        with z1 ne show ?thesis by simp
      qed
    qed
    from all_zero_replicate [OF this] show ?thesis
      by (simp add: l1)
  qed
  have rd: "read_at (arr1[?L - 1 := drop_bit ?s ?y]) (?L - 1) = Some (drop_bit ?s ?y)"
    using il l1 by (simp add: read_at_def)
  show ?thesis
  proof (cases "unat (m_NumBits a) mod 8 = 0")
    case True
    have "\<not> 8 \<le> ?sc + ?s"
      unfolding spare_count_zero [OF assms(1) True] by simp
    with cs(2) have "?c = ?L"
      by blast
    then have "drop_bit ?s ?y = 0"
      using yc by simp
    then have "op_shr_assign a k = Some (a\<lparr>m_Array := arr1[?L - 1 := 0]\<rparr>)"
      using cs(1) True
      by (simp only: op_shr_assign_unfold [OF False] li(1) r0 r1 r2 if_True option.case) simp
    then show ?thesis
      by (simp only: allz ClearAll_def)
  next
    case nz: False
    have m0: "drop_bit ?s ?y AND push_bit (8 - unat (m_NumBits a) mod 8) UCHAR_MAX = 0"
    proof (cases "?c = ?L")
      case True
      then show ?thesis
        using yc by simp
    next
      case ne: False
      with cs(2) have big: "8 \<le> ?sc + ?s"
        by blast
      have "?sc \<le> 8"
        using spare_count_less [OF assms(1) n0] by simp
      from drop_bit_masked_out [OF big this, of ?y] show ?thesis
        by (simp only: spare_count_mod [OF assms(1) nz])
    qed
    have "op_shr_assign a k
            = Some (a\<lparr>m_Array := (arr1[?L - 1 := drop_bit ?s ?y])[?L - 1 :=
                       drop_bit ?s ?y AND push_bit (8 - unat (m_NumBits a) mod 8) UCHAR_MAX]\<rparr>)"
      using cs(1) nz
      by (simp only: op_shr_assign_unfold [OF False] li(1) r0 r1 r2 rd if_True option.case)
        simp
    then have "op_shr_assign a k = Some (a\<lparr>m_Array := arr1[?L - 1 := 0]\<rparr>)"
      by (simp only: m0 list_update_overwrite)
    then show ?thesis
      by (simp only: allz ClearAll_def)
  qed
qed

text \<open>
  On a vector that satisfies Invariant A and has zero spare bits, a shift by at least the
  number of bits whose whole characters \<open>shifts / CHAR_BIT\<close> do not exceed the number of
  characters leaves every character zero, in both directions.
\<close>

lemma shift_beyond_length_clears:
  assumes "invariant_A a" and "spare_bits_zero a"
    and "unat (m_NumBits a) \<le> unat k" and "unat k div 8 \<le> length (m_Array a)"
  shows "op_shl_assign a k = Some (ClearAll a) \<and> op_shr_assign a k = Some (ClearAll a)"
  using shl_beyond_length_clears [OF assms] shr_beyond_length_clears [OF assms(1,3,4)]
  by simp

end
